theory Spec2Isabelle
  imports Main
begin

unbundle bit_operations_syntax

section \<open>Tokens and positions\<close>

text \<open>
  The token kinds of package \<open>token\<close>, in the order of its \<open>const\<close> block and under
  the names the scanner uses: it writes \<open>token.SEMICOL\<close> and \<open>token.COLUMN\<close> for the
  kinds of \<open>;\<close> and \<open>:\<close>, which \<open>token.go\<close> declares as \<open>SEMICOLON\<close> and \<open>COLON\<close>.
\<close>

datatype Token =
    ILLEGAL | EOF | COMMENT
  | IDENT | NUMBER | TRUE | FALSE
  | COMMA | SEMICOL | COLUMN | LEFTDELIM | RIGTDELIM | LEFTPAR | RIGHTPAR
  | LEFTINDEX | RIGHTINDEX | PIPE | RANGE
  | DECL | IN | OUT | PARTS | CLOCKED

text \<open>
  \<open>scanner.Position\<close>: the fields \<open>file\<close>, \<open>line\<close>, \<open>column\<close> are zero-based;
  the accessors \<open>Line\<close> and \<open>Column\<close> add one. (The field names carry a \<open>p\<close>
  because \<open>file\<close> is reserved and \<open>line\<close> is also a field of the scanner.)
\<close>

record Position =
  pfile :: string
  pline :: nat
  pcolumn :: nat

definition File :: "Position \<Rightarrow> string" where
  "File p = pfile p"

definition Line :: "Position \<Rightarrow> nat" where
  "Line p = pline p + 1"

definition Column :: "Position \<Rightarrow> nat" where
  "Column p = pcolumn p + 1"

text \<open>\<open>scanner.Error\<close> wraps the position at which the encoding is invalid.\<close>

datatype Error = Error Position

text \<open>
  \<open>token.Lookup\<close>: the keyword table first, then the literals \<open>true\<close> and
  \<open>false\<close>, else \<open>IDENT\<close>. A Go string is a sequence of bytes, here a \<open>string\<close>.
\<close>

definition keywords' :: "string \<rightharpoonup> Token" where
  "keywords' = map_of
     [(''CHIP'', DECL), (''IN'', IN), (''OUT'', OUT), (''PARTS'', PARTS), (''CLOCKED'', CLOCKED)]"

definition Lookup :: "string \<Rightarrow> Token" where
  "Lookup s =
     (case keywords' s of
        Some keyword \<Rightarrow> keyword
      | None \<Rightarrow> (if s = ''true'' then TRUE else if s = ''false'' then FALSE else IDENT))"

section \<open>Runes and the UTF-8 decoder\<close>

text \<open>
  A rune is Go's \<open>int32\<close> code point; every value that occurs is between \<open>-1\<close> (the
  scanner's \<open>eof\<close>) and \<open>0x10FFFF\<close>, so it is an \<open>int\<close> here. Bytes are \<open>char\<close>s
  (eight bits), read as numbers by \<open>of_char\<close>.
\<close>

abbreviation eof :: int where
  "eof \<equiv> - 1"

abbreviation RuneError :: int where
  "RuneError \<equiv> 0xFFFD"

abbreviation RuneSelf :: int where
  "RuneSelf \<equiv> 0x80"

definition UTFMax :: nat where
  "UTFMax = 4"

text \<open>
  \<open>utf8.DecodeRune\<close> and \<open>utf8.DecodeLastRune\<close> of Go's standard library, which
  the scanner calls and the repository does not contain. They are written after the
  library's code: the table \<open>first\<close> gives for a leading byte the sequence length (low
  three bits) and the index of the range accepted for the second byte (high four bits);
  \<open>0xF0\<close> marks ASCII and \<open>0xF1\<close> an invalid leading byte.
\<close>

definition first :: "nat \<Rightarrow> nat" where
  "first b =
     (if b < 0x80 then 0xF0
      else if b < 0xC2 then 0xF1
      else if b < 0xE0 then 0x02
      else if b = 0xE0 then 0x13
      else if b < 0xED then 0x03
      else if b = 0xED then 0x23
      else if b < 0xF0 then 0x03
      else if b = 0xF0 then 0x34
      else if b < 0xF4 then 0x04
      else if b = 0xF4 then 0x44
      else 0xF1)"

definition acceptRanges :: "nat \<Rightarrow> nat \<times> nat" where
  "acceptRanges i =
     (if i = 1 then (0xA0, 0xBF)
      else if i = 2 then (0x80, 0x9F)
      else if i = 3 then (0x90, 0xBF)
      else if i = 4 then (0x80, 0x8F)
      else (0x80, 0xBF))"

definition contb :: "nat \<Rightarrow> bool" where
  "contb b = (0x80 \<le> b \<and> b \<le> 0xBF)"

definition DecodeRune :: "string \<Rightarrow> int \<times> nat" where
  "DecodeRune p =
     (let n = length p in
      if n < 1 then (RuneError, 0)
      else
        let p0 = (of_char (p ! 0) :: nat); x = first p0 in
        if x \<ge> 0xF0 then ((if x = 0xF0 then int p0 else RuneError), 1)
        else
          let sz = x AND 7; accept = acceptRanges (drop_bit 4 x) in
          if n < sz then (RuneError, 1)
          else
            let b1 = (of_char (p ! 1) :: nat) in
            if b1 < fst accept \<or> snd accept < b1 then (RuneError, 1)
            else if sz \<le> 2 then (int (push_bit 6 (p0 AND 0x1F) OR (b1 AND 0x3F)), 2)
            else
              let b2 = (of_char (p ! 2) :: nat) in
              if \<not> contb b2 then (RuneError, 1)
              else if sz \<le> 3 then
                (int (push_bit 12 (p0 AND 0x0F) OR push_bit 6 (b1 AND 0x3F) OR (b2 AND 0x3F)), 3)
              else
                let b3 = (of_char (p ! 3) :: nat) in
                if \<not> contb b3 then (RuneError, 1)
                else
                  (int (push_bit 18 (p0 AND 0x07) OR push_bit 12 (b1 AND 0x3F)
                        OR push_bit 6 (b2 AND 0x3F) OR (b3 AND 0x3F)), 4))"

definition RuneStart :: "char \<Rightarrow> bool" where
  "RuneStart b = ((of_char b :: nat) AND 0xC0 \<noteq> 0x80)"

text \<open>
  The backwards search of \<open>DecodeLastRune\<close>
  (\<open>for start--; start >= lim; start-- { if RuneStart(p[start]) { break } }\<close>),
  entered with \<open>start\<close> already decremented; the index may reach \<open>lim - 1\<close>, which
  is \<open>-1\<close> when \<open>lim = 0\<close>, so it is an \<open>int\<close>.
\<close>

function backup :: "string \<Rightarrow> int \<Rightarrow> int \<Rightarrow> int" where
  "backup p lim start =
     (if start \<ge> lim then
        (if RuneStart (p ! nat start) then start else backup p lim (start - 1))
      else start)"
  by pat_completeness auto
termination
  by (relation "measure (\<lambda>(p, lim, start). nat (start - lim + 1))") auto

declare backup.simps [simp del]

definition DecodeLastRune :: "string \<Rightarrow> int \<times> nat" where
  "DecodeLastRune p =
     (let end = length p in
      if end = 0 then (RuneError, 0)
      else
        let r = (of_char (p ! (end - 1)) :: int) in
        if r < RuneSelf then (r, 1)
        else
          let lim = max 0 (int end - int UTFMax);
              start0 = backup p lim (int end - 2);
              start = (if start0 < 0 then 0 else nat start0);
              (r, size) = DecodeRune (drop start p)
          in if start + size \<noteq> end then (RuneError, 1) else (r, size))"

section \<open>The scanner\<close>

text \<open>
  The fields of \<open>Scanner\<close>. The counters start at zero and only grow, the byte
  offsets up to \<open>len(src)\<close>, so Go's \<open>int\<close> is \<open>nat\<close> here.
\<close>

record Scanner =
  filename :: string
  src :: string
  current :: int
  w :: nat
  pos :: nat
  line :: nat
  col :: nat
  start :: nat
  tokLine :: nat
  tokCol :: nat
  errs :: "Error list"

text \<open>
  \<open>unicode.IsLetter\<close> looks the rune up in the standard library's table of letters,
  which the repository does not contain. Below \<open>0x80\<close> the letters are \<open>A\<close> to \<open>Z\<close>
  and \<open>a\<close> to \<open>z\<close> (no negative rune, so not \<open>eof\<close>, is a letter); from \<open>0x80\<close> on
  the table is the parameter \<open>T\<close>, a predicate on code points, and every theorem below
  holds for every such table.
\<close>

definition IsLetter :: "(nat \<Rightarrow> bool) \<Rightarrow> int \<Rightarrow> bool" where
  "IsLetter T r =
     (if r < RuneSelf then
        (of_char CHR ''A'' \<le> r \<and> r \<le> of_char CHR ''Z'')
        \<or> (of_char CHR ''a'' \<le> r \<and> r \<le> of_char CHR ''z'')
      else T (nat r))"

definition isDigit :: "int \<Rightarrow> bool" where
  "isDigit r = (of_char CHR ''0'' \<le> r \<and> r \<le> of_char CHR ''9'')"

definition isAlphanumeric :: "(nat \<Rightarrow> bool) \<Rightarrow> int \<Rightarrow> bool" where
  "isAlphanumeric T r = (isDigit r \<or> IsLetter T r \<or> r = of_char CHR ''_'')"

definition startComment :: "int \<Rightarrow> bool" where
  "startComment r = (r = of_char CHR ''/'')"

text \<open>
  \<open>Scanner.next\<close>: step over the current rune (\<open>w\<close> bytes), count the line and the
  column, then read the rune at the new offset: a byte below \<open>0x80\<close> is the rune,
  anything else goes through \<open>utf8.DecodeLastRune(s.src[s.pos:])\<close>, and a
  \<open>RuneError\<close> result appends an \<open>Error\<close> at the current line and column.
\<close>

definition next' :: "Scanner \<Rightarrow> Scanner" where
  "next' s =
     (let s1 = s\<lparr>pos := pos s + w s, col := col s + w s\<rparr>;
          s2 = (if current s1 = of_char CHR 0x0A then s1\<lparr>line := line s1 + 1, col := 0\<rparr> else s1)
      in if pos s2 \<ge> length (src s2) then s2\<lparr>current := eof, w := 0\<rparr>
         else
           let c = (of_char (src s2 ! pos s2) :: int) in
           if c \<ge> RuneSelf then
             let (r, n) = DecodeLastRune (drop (pos s2) (src s2));
                 s3 = s2\<lparr>current := r, w := n\<rparr>
             in if r = RuneError
                then s3\<lparr>errs := errs s3 @
                        [Error \<lparr>pfile = filename s3, pline = line s3, pcolumn = col s3\<rparr>]\<rparr>
                else s3
           else s2\<lparr>current := c, w := 1\<rparr>)"

text \<open>\<open>New\<close>: the zero value of every other field, then one call of \<open>next\<close>.\<close>

definition New :: "string \<Rightarrow> string \<Rightarrow> Scanner" where
  "New file' src' =
     next' \<lparr>filename = file', src = src', current = 0, w = 0, pos = 0, line = 0, col = 0,
            start = 0, tokLine = 0, tokCol = 0, errs = []\<rparr>"

definition moveToken :: "Scanner \<Rightarrow> Scanner" where
  "moveToken s = s\<lparr>start := pos s, tokLine := line s, tokCol := col s\<rparr>"

text \<open>
  \<open>literal\<close> is \<open>string(s.src[s.start:s.pos])\<close>. The slice expression is in range
  whenever \<open>start \<le> pos \<le> len(src)\<close>, which holds in every state the scanner reaches
  (lemma \<open>ok_bounds\<close> below).
\<close>

definition literal :: "Scanner \<Rightarrow> string" where
  "literal s = take (pos s - start s) (drop (start s) (src s))"

text \<open>
  The measure of every loop below: zero at the end of input, else what is left of the
  buffer (with one extra for a state whose rune has no width yet).
\<close>

definition rest :: "Scanner \<Rightarrow> nat" where
  "rest s =
     (if current s = eof then 0
      else 1 + 2 * (length (src s) - pos s) + (if w s = 0 then 1 else 0))"

section \<open>Facts about the decoder and about \<open>next\<close>\<close>

lemma backup_le: "backup p lim i \<le> i"
proof (induction p lim i rule: backup.induct)
  case (1 p lim start)
  show ?case
    by (subst backup.simps) (use 1 in auto)
qed

lemma DecodeRune_rune_nonneg: "0 \<le> fst (DecodeRune p)"
  by (simp add: DecodeRune_def Let_def)

lemma DecodeLastRune_cases:
  "DecodeLastRune p = (RuneError, 0) \<and> p = []
   \<or> DecodeLastRune p = (of_char (p ! (length p - 1)), 1) \<and> p \<noteq> []
   \<or> DecodeLastRune p = (RuneError, 1) \<and> p \<noteq> []
   \<or> (\<exists>k < length p. DecodeLastRune p = DecodeRune (drop k p)
         \<and> k + snd (DecodeRune (drop k p)) = length p)"
proof (cases "p = []")
  case True
  then show ?thesis by (simp add: DecodeLastRune_def)
next
  case False
  define b where "b = backup p (max 0 (int (length p) - int UTFMax)) (int (length p) - 2)"
  define k where "k = (if b < 0 then 0 else nat b)"
  have "b \<le> int (length p) - 2"
    unfolding b_def by (rule backup_le)
  with False have k: "k < length p"
    by (auto simp add: k_def)
  obtain r n where rn: "DecodeRune (drop k p) = (r, n)"
    by (cases "DecodeRune (drop k p)")
  have "DecodeLastRune p =
      (if (of_char (p ! (length p - 1)) :: int) < RuneSelf then (of_char (p ! (length p - 1)), 1)
       else if k + n \<noteq> length p then (RuneError, 1) else (r, n))"
    unfolding DecodeLastRune_def Let_def b_def [symmetric] k_def [symmetric]
    using False rn by simp
  with False k rn show ?thesis
    by (cases "(of_char (p ! (length p - 1)) :: int) < RuneSelf"; cases "k + n \<noteq> length p") auto
qed

lemma of_char_int_nonneg: "(0::int) \<le> of_char c"
  by (metis of_nat_0_le_iff of_nat_of_char)

lemma DecodeLastRune_rune_nonneg: "0 \<le> fst (DecodeLastRune p)"
  using DecodeLastRune_cases [of p] DecodeRune_rune_nonneg of_char_int_nonneg
  by (elim disjE exE conjE) simp_all

lemma DecodeLastRune_size:
  assumes "p \<noteq> []"
  shows "1 \<le> snd (DecodeLastRune p) \<and> snd (DecodeLastRune p) \<le> length p"
  using DecodeLastRune_cases [of p] assms
  by (elim disjE exE conjE) (simp_all add: Suc_leI)

lemma of_char_int_less: "(of_char c :: int) < 256"
  by (metis of_char_mod_256 pos_mod_bound zero_less_numeral)

lemma next_frame [simp]:
  "src (next' s) = src s" "filename (next' s) = filename s" "start (next' s) = start s"
  "tokLine (next' s) = tokLine s" "tokCol (next' s) = tokCol s"
  "pos (next' s) = pos s + w s"
  by (simp_all add: next'_def Let_def split: prod.splits)

lemma next_line_col:
  "line (next' s) = (if current s = 10 then line s + 1 else line s)"
  "col (next' s) = (if current s = 10 then 0 else col s + w s)"
  by (simp_all add: next'_def Let_def split: prod.splits)

lemma next_current_eof:
  "(current (next' s) = eof) = (length (src s) \<le> pos s + w s)"
  using DecodeLastRune_rune_nonneg [of "drop (pos s + w s) (src s)"]
    of_char_int_nonneg [of "src s ! (pos s + w s)"]
  by (auto simp add: next'_def Let_def split: prod.splits)

lemma next_w:
  "pos s + w s < length (src s) \<Longrightarrow> 1 \<le> w (next' s) \<and> pos s + w s + w (next' s) \<le> length (src s)"
  using DecodeLastRune_size [of "drop (pos s + w s) (src s)"]
  by (auto simp add: next'_def Let_def split: prod.splits)

lemma next_rest: "current s \<noteq> eof \<Longrightarrow> rest (next' s) < rest s"
  using next_w [of s] next_current_eof [of s]
  by (auto simp add: rest_def)

section \<open>The loops, the comment scanner and \<open>Scan\<close>\<close>

function skipSpace_loop :: "Scanner \<Rightarrow> Scanner" where
  "skipSpace_loop s =
     (if current s = of_char CHR '' '' \<or> current s = of_char CHR 0x09
         \<or> current s = of_char CHR 0x0D \<or> current s = of_char CHR 0x0A
      then skipSpace_loop (next' s) else s)"
  by pat_completeness auto
termination
  by (relation "measure rest") (auto intro: next_rest)

declare skipSpace_loop.simps [simp del]

definition skipSpace :: "Scanner \<Rightarrow> Scanner" where
  "skipSpace s = moveToken (skipSpace_loop s)"

function digits_loop :: "Scanner \<Rightarrow> Scanner" where
  "digits_loop s = (if isDigit (current s) then digits_loop (next' s) else s)"
  by pat_completeness auto
termination
  by (relation "measure rest") (auto intro: next_rest simp: isDigit_def)

declare digits_loop.simps [simp del]

function ident_loop :: "(nat \<Rightarrow> bool) \<Rightarrow> Scanner \<Rightarrow> Scanner" where
  "ident_loop T s = (if isAlphanumeric T (current s) then ident_loop T (next' s) else s)"
  by pat_completeness auto
termination
  by (relation "measure (\<lambda>(T, s). rest s)")
     (auto intro: next_rest simp: isAlphanumeric_def isDigit_def IsLetter_def)

declare ident_loop.simps [simp del]

function eol_loop :: "Scanner \<Rightarrow> Scanner" where
  "eol_loop s =
     (if current s \<noteq> eof \<and> current s \<noteq> of_char CHR 0x0A \<and> current s \<noteq> of_char CHR 0x0D
      then eol_loop (next' s) else s)"
  by pat_completeness auto
termination
  by (relation "measure rest") (auto intro: next_rest)

declare eol_loop.simps [simp del]

function star_loop :: "Scanner \<Rightarrow> Scanner" where
  "star_loop s =
     (if current s \<noteq> of_char CHR ''*'' \<and> current s \<noteq> eof then star_loop (next' s) else s)"
  by pat_completeness auto
termination
  by (relation "measure rest") (auto intro: next_rest)

declare star_loop.simps [simp del]

lemma star_loop_rest: "rest (star_loop s) \<le> rest s"
proof (induction s rule: star_loop.induct)
  case (1 s)
  show ?case
  proof (cases "current s \<noteq> of_char CHR ''*'' \<and> current s \<noteq> eof")
    case True
    with 1 next_rest [of s] show ?thesis
      by (subst star_loop.simps) simp
  next
    case False
    then show ?thesis
      by (subst star_loop.simps) auto
  qed
qed

function block_loop :: "Scanner \<Rightarrow> (Token \<times> string) \<times> Scanner" where
  "block_loop s =
     (let s1 = star_loop s in
      if current s1 = eof then ((ILLEGAL, literal s1), s1)
      else
        let s2 = next' s1 in
        if current s2 = of_char CHR ''/'' then
          (let s3 = next' s2 in ((COMMENT, literal s3), moveToken s3))
        else block_loop s2)"
  by pat_completeness auto
termination
proof (relation "measure rest")
  show "wf (measure rest)" by simp
next
  fix s x xa
  assume "x = star_loop s" "current x \<noteq> eof" "xa = next' x"
  then show "(xa, s) \<in> measure rest"
    using star_loop_rest [of s] next_rest [of x] by simp
qed

declare block_loop.simps [simp del]

text \<open>
  The second half of \<open>Scanner.comment\<close>, from \<open>if start := string(s.src[s.start:s.pos]);
  start == "//"\<close> on: the left delimiter is known and the scanner is on the first rune
  after it.
\<close>

definition comment_body :: "Scanner \<Rightarrow> (Token \<times> string) \<times> Scanner" where
  "comment_body s =
     (if literal s = ''//'' then
        (let s1 = eol_loop s; s2 = next' s1 in ((COMMENT, literal s2), moveToken s2))
      else block_loop s)"

text \<open>
  \<open>Scanner.comment\<close>, entered on the rune \<open>/\<close>: the \<open>switch\<close> that finds the left
  delimiter (with the early returns for \<open>/**/\<close> and for a \<open>/\<close> that opens nothing), then
  \<open>comment_body\<close>.
\<close>

definition comment :: "Scanner \<Rightarrow> (Token \<times> string) \<times> Scanner" where
  "comment s0 =
     (let s1 = next' s0 in
      if current s1 = of_char CHR ''/'' then comment_body (next' s1)
      else if current s1 = of_char CHR ''*'' then
        (let s2 = next' s1 in
         if current s2 = of_char CHR ''*'' then
           (let s3 = next' s2 in
            if current s3 = of_char CHR ''/'' then
              (let s4 = next' s3 in ((COMMENT, literal s4), moveToken s4))
            else comment_body s3)
         else comment_body s2)
      else ((ILLEGAL, literal s1), moveToken s1))"

definition simple_token :: "int \<Rightarrow> Token" where
  "simple_token c =
     (if c = of_char CHR '','' then COMMA
      else if c = of_char CHR '';'' then SEMICOL
      else if c = of_char CHR '':'' then COLUMN
      else if c = of_char CHR ''{'' then LEFTDELIM
      else if c = of_char CHR ''}'' then RIGTDELIM
      else if c = of_char CHR ''('' then LEFTPAR
      else if c = of_char CHR '')'' then RIGHTPAR
      else if c = of_char CHR ''['' then LEFTINDEX
      else if c = of_char CHR '']'' then RIGHTINDEX
      else if c = of_char CHR ''='' then PIPE
      else ILLEGAL)"

definition Scan :: "(nat \<Rightarrow> bool) \<Rightarrow> Scanner \<Rightarrow> (Position \<times> Token \<times> string) \<times> Scanner" where
  "Scan T s0 =
     (let s = skipSpace s0;
          p = \<lparr>pfile = filename s, pline = tokLine s, pcolumn = tokCol s\<rparr>;
          c = current s
      in if c = eof then ((p, EOF, ''''), s)
         else if isDigit c then
           (let s = digits_loop s in ((p, NUMBER, literal s), moveToken s))
         else if IsLetter T c then
           (let s = ident_loop T s; lit = literal s in ((p, Lookup lit, lit), moveToken s))
         else if c = of_char CHR ''.'' then
           (let s = next' s in
            if current s = of_char CHR ''.'' then ((p, RANGE, ''..''), next' s)
            else ((p, ILLEGAL, ''.''), s))
         else if startComment c then
           (case comment s of ((tok, lit), s) \<Rightarrow> ((p, tok, lit), s))
         else
           (let tok = simple_token c; s = next' s in ((p, tok, literal s), moveToken s)))"

text \<open>
  The table used for the concrete runs below: of the letters beyond ASCII only the Greek
  ones from \<open>U+03A3\<close> to \<open>U+03F5\<close>, which the standard table contains.
\<close>

definition Letters :: "nat \<Rightarrow> bool" where
  "Letters c = (0x3A3 \<le> c \<and> c \<le> 0x3F5)"

text \<open>\<open>scans T n s\<close>: the results of \<open>n\<close> successive calls of \<open>Scan\<close> on \<open>s\<close>.\<close>

fun scans :: "(nat \<Rightarrow> bool) \<Rightarrow> nat \<Rightarrow> Scanner \<Rightarrow> (Position \<times> Token \<times> string) list" where
  "scans T 0 s = []"
| "scans T (Suc n) s = (case Scan T s of (r, s') \<Rightarrow> r # scans T n s')"

text \<open>\<open>after T n s\<close>: the scanner \<open>s\<close> after \<open>n\<close> calls of \<open>Scan\<close>.\<close>

fun after :: "(nat \<Rightarrow> bool) \<Rightarrow> nat \<Rightarrow> Scanner \<Rightarrow> Scanner" where
  "after T 0 s = s"
| "after T (Suc n) s = after T n (snd (Scan T s))"

text \<open>The bytes of the four Greek letters gamma, theta, iota, pi in UTF-8.\<close>

definition greek :: string where
  "greek = [CHR 0xCE, CHR 0xB3, CHR 0xCE, CHR 0xB8, CHR 0xCE, CHR 0xB9, CHR 0xCF, CHR 0x80]"

section \<open>Invariant, reachability and order: definitions\<close>

text \<open>
  The states the scanner reaches: the token start is not after the cursor, the current
  rune lies inside the buffer, it has a width unless the input is used up, and a byte
  below \<open>0x80\<close> under the cursor is the current rune, of width one.
\<close>

definition ok :: "Scanner \<Rightarrow> bool" where
  "ok s =
     (start s \<le> pos s \<and> pos s + w s \<le> length (src s) \<and>
      (if pos s < length (src s)
       then 1 \<le> w s \<and> current s \<noteq> eof \<and>
            ((of_char (src s ! pos s) :: int) < RuneSelf \<longrightarrow>
               current s = of_char (src s ! pos s) \<and> w s = 1)
       else current s = eof))"

text \<open>\<open>reach s t\<close>: \<open>t\<close> is \<open>s\<close> after some number of calls of \<open>next\<close>.\<close>

definition reach :: "Scanner \<Rightarrow> Scanner \<Rightarrow> bool" where
  "reach s t = (\<exists>n. t = (next' ^^ n) s)"

text \<open>
  The common shape of the five rune loops, \<open>for G(s.current) { s.next() }\<close> with a guard
  that is false at \<open>eof\<close>; each loop is shown equal to an instance (\<open>loops_upto\<close>).
\<close>

function upto :: "(int \<Rightarrow> bool) \<Rightarrow> Scanner \<Rightarrow> Scanner" where
  "upto G s = (if G (current s) \<and> current s \<noteq> eof then upto G (next' s) else s)"
  by pat_completeness auto
termination
  by (relation "measure (\<lambda>(G, s). rest s)") (auto intro: next_rest)

declare upto.simps [simp del]

text \<open>The lexicographic order on (line, column) of two scanner states.\<close>

definition lc_le :: "Scanner \<Rightarrow> Scanner \<Rightarrow> bool" where
  "lc_le s t = (line s < line t \<or> (line s = line t \<and> col s \<le> col t))"

text \<open>
  \<open>bytecol s t\<close>: from \<open>s\<close> to \<open>t\<close> the line has not gone back, and if it is the same
  the column has advanced by as much as the byte offset.
\<close>

definition bytecol :: "Scanner \<Rightarrow> Scanner \<Rightarrow> bool" where
  "bytecol s t = (line s \<le> line t \<and> (line t = line s \<longrightarrow> col t + pos s = col s + pos t))"

text \<open>
  \<open>fin s t\<close>: \<open>t\<close> is what a sub-scan started in \<open>s\<close> leaves: a state reached by
  \<open>next\<close>, with or without the closing \<open>moveToken\<close>.
\<close>

definition fin :: "Scanner \<Rightarrow> Scanner \<Rightarrow> bool" where
  "fin s t = (\<exists>u. reach s u \<and> (t = u \<or> t = moveToken u))"

text \<open>
  Two projections of a scanner state: \<open>er\<close> forgets the collected errors, \<open>cur\<close> also
  the start of the current token. What is left by \<open>cur\<close> is the file name, the buffer and
  the cursor (current rune, its width, offset, line and column).
\<close>

definition er :: "Scanner \<Rightarrow> Scanner" where
  "er s = s\<lparr>errs := []\<rparr>"

definition cur :: "Scanner \<Rightarrow> Scanner" where
  "cur s = s\<lparr>start := 0, tokLine := 0, tokCol := 0, errs := []\<rparr>"

text \<open>\<open>remaining s\<close>: the bytes of the buffer from the cursor on.\<close>

definition remaining :: "Scanner \<Rightarrow> string" where
  "remaining s = drop (pos s) (src s)"

text \<open>
  \<open>closed_in r\<close>: the bytes \<open>r\<close> contain \<open>*\<close> immediately followed by \<open>/\<close>, the right
  delimiter of a block comment.
\<close>

fun closed_in :: "string \<Rightarrow> bool" where
  "closed_in (a # b # r) = ((a = CHR ''*'' \<and> b = CHR ''/'') \<or> closed_in (b # r))"
| "closed_in r = False"

section \<open>Comments of a description\<close>

text \<open>
  \<open>token.Position\<close> (line and column, zero-based) and \<open>description.Comment\<close> with its
  three predicates on the literal. \<open>strings.HasPrefix(s, prefix)\<close> is
  \<open>len(s) >= len(prefix) && s[:len(prefix)] == prefix\<close>. (\<open>cstart\<close> and \<open>cend\<close> are the
  fields \<open>start\<close> and \<open>end\<close>.)
\<close>

record TPosition =
  tline :: nat
  tcolumn :: nat

record Comment =
  cstart :: TPosition
  cend :: TPosition
  lit :: string

definition HasPrefix :: "string \<Rightarrow> string \<Rightarrow> bool" where
  "HasPrefix s prefix = (length s \<ge> length prefix \<and> take (length prefix) s = prefix)"

definition IsEOL :: "Comment \<Rightarrow> bool" where
  "IsEOL c = HasPrefix (lit c) ''//''"

definition IsMultiline :: "Comment \<Rightarrow> bool" where
  "IsMultiline c = HasPrefix (lit c) ''/*''"

definition IsAPI :: "Comment \<Rightarrow> bool" where
  "IsAPI c = HasPrefix (lit c) ''/**''"

section \<open>Lemmas\<close>

lemma moveToken_simps [simp]:
  "src (moveToken s) = src s" "filename (moveToken s) = filename s"
  "current (moveToken s) = current s" "w (moveToken s) = w s" "pos (moveToken s) = pos s"
  "line (moveToken s) = line s" "col (moveToken s) = col s" "errs (moveToken s) = errs s"
  "start (moveToken s) = pos s" "tokLine (moveToken s) = line s" "tokCol (moveToken s) = col s"
  by (simp_all add: moveToken_def)

lemma moveToken_idem [simp]: "moveToken (moveToken s) = moveToken s"
  by (simp add: moveToken_def)

lemma skipSpace_loop_upto:
  "skipSpace_loop s = upto (\<lambda>c. c = of_char CHR '' '' \<or> c = of_char CHR 0x09
         \<or> c = of_char CHR 0x0D \<or> c = of_char CHR 0x0A) s"
proof (induction s rule: skipSpace_loop.induct)
  case (1 s)
  then show ?case
    by (subst skipSpace_loop.simps, subst upto.simps) auto
qed

lemma isDigit_not_eof: "isDigit c \<Longrightarrow> c \<noteq> eof"
  by (auto simp add: isDigit_def)

lemma isAlphanumeric_not_eof: "isAlphanumeric T c \<Longrightarrow> c \<noteq> eof"
  by (auto simp add: isAlphanumeric_def isDigit_def IsLetter_def)

lemma digits_loop_upto: "digits_loop s = upto isDigit s"
proof (induction s rule: digits_loop.induct)
  case (1 s)
  then show ?case
    by (subst digits_loop.simps, subst upto.simps) (auto dest: isDigit_not_eof)
qed

lemma ident_loop_upto: "ident_loop T s = upto (isAlphanumeric T) s"
proof (induction T s rule: ident_loop.induct)
  case (1 T s)
  then show ?case
    by (subst ident_loop.simps, subst upto.simps) (auto dest: isAlphanumeric_not_eof)
qed

lemma eol_loop_upto:
  "eol_loop s = upto (\<lambda>c. c \<noteq> of_char CHR 0x0A \<and> c \<noteq> of_char CHR 0x0D) s"
proof (induction s rule: eol_loop.induct)
  case (1 s)
  then show ?case
    by (subst eol_loop.simps, subst upto.simps) auto
qed

lemma star_loop_upto: "star_loop s = upto (\<lambda>c. c \<noteq> of_char CHR ''*'') s"
proof (induction s rule: star_loop.induct)
  case (1 s)
  then show ?case
    by (subst star_loop.simps, subst upto.simps) auto
qed

lemmas loops_upto = skipSpace_loop_upto digits_loop_upto ident_loop_upto eol_loop_upto star_loop_upto

lemma reach_refl [simp]: "reach s s"
  unfolding reach_def by (rule exI [of _ 0]) simp

lemma reach_next: "reach (next' s) t \<Longrightarrow> reach s t"
  unfolding reach_def
proof (elim exE)
  fix n assume "t = (next' ^^ n) (next' s)"
  then have "t = (next' ^^ Suc n) s" by (simp add: funpow_swap1)
  then show "\<exists>n. t = (next' ^^ n) s" by blast
qed

lemma reach_trans: "reach s t \<Longrightarrow> reach t u \<Longrightarrow> reach s u"
  unfolding reach_def
proof (elim exE)
  fix n m assume "t = (next' ^^ n) s" "u = (next' ^^ m) t"
  then have "u = (next' ^^ (m + n)) s" by (simp add: funpow_add)
  then show "\<exists>n. u = (next' ^^ n) s" by blast
qed

lemma reach_step [simp]: "reach s (next' s)"
  by (rule reach_next) simp

lemma reach_induct [consumes 1, case_names refl step]:
  assumes "reach s t" and "P s" and "\<And>u. reach s u \<Longrightarrow> P u \<Longrightarrow> P (next' u)"
  shows "P t"
proof -
  from assms(1) obtain n where "t = (next' ^^ n) s" unfolding reach_def by blast
  moreover have "P ((next' ^^ n) s) \<and> reach s ((next' ^^ n) s)"
  proof (induction n)
    case 0
    show ?case using assms(2) by simp
  next
    case (Suc n)
    then show ?case using assms(3) reach_trans [OF _ reach_step] by simp
  qed
  ultimately show ?thesis by simp
qed

lemma upto_reach: "reach s (upto G s)"
proof (induction G s rule: upto.induct)
  case (1 G s)
  show ?case
  proof (cases "G (current s) \<and> current s \<noteq> eof")
    case True
    with 1 have "reach (next' s) (upto G s)"
      by (subst upto.simps) simp
    then show ?thesis by (rule reach_next)
  next
    case False
    then show ?thesis by (subst upto.simps) auto
  qed
qed

lemma upto_exit: "\<not> G (current (upto G s)) \<or> current (upto G s) = eof"
proof (induction G s rule: upto.induct)
  case (1 G s)
  then show ?case
    by (subst (1 2) upto.simps) auto
qed

lemma lc_le_refl [simp]: "lc_le s s"
  by (simp add: lc_le_def)

lemma lc_le_trans: "lc_le s t \<Longrightarrow> lc_le t u \<Longrightarrow> lc_le s u"
  by (auto simp add: lc_le_def)

lemma lc_le_next: "lc_le s (next' s)"
  by (simp add: lc_le_def next_line_col)

lemma lc_le_moveToken [simp]: "lc_le s (moveToken t) = lc_le s t" "lc_le (moveToken s) t = lc_le s t"
  by (simp_all add: lc_le_def)

lemma reach_lc_le: "reach s t \<Longrightarrow> lc_le s t"
proof (induction rule: reach_induct)
  case refl
  show ?case by simp
next
  case (step u)
  then show ?case using lc_le_next lc_le_trans by blast
qed

lemma reach_frame:
  assumes "reach s t"
  shows "src t = src s \<and> filename t = filename s \<and> start t = start s
         \<and> tokLine t = tokLine s \<and> tokCol t = tokCol s \<and> pos s \<le> pos t"
  using assms by (induction rule: reach_induct) simp_all

lemma next_ok:
  assumes "start s \<le> pos s + w s" and "pos s + w s \<le> length (src s)"
  shows "ok (next' s)"
proof (cases "pos s + w s < length (src s)")
  case True
  then have "1 \<le> w (next' s) \<and> pos s + w s + w (next' s) \<le> length (src s)"
    by (rule next_w)
  moreover have "current (next' s) \<noteq> eof"
    using True by (simp add: next_current_eof)
  moreover have "(of_char (src s ! (pos s + w s)) :: int) < RuneSelf \<longrightarrow>
      current (next' s) = of_char (src s ! (pos s + w s)) \<and> w (next' s) = 1"
    using True by (simp add: next'_def Let_def)
  ultimately show ?thesis
    using assms True by (simp add: ok_def)
next
  case False
  with assms have e: "pos s + w s = length (src s)" by simp
  then have "current (next' s) = eof" by (simp add: next_current_eof)
  moreover from e have "w (next' s) = 0" by (simp add: next'_def Let_def)
  ultimately show ?thesis using assms e by (simp add: ok_def)
qed

lemma ok_next: "ok s \<Longrightarrow> ok (next' s)"
  by (rule next_ok) (auto simp add: ok_def)

lemma ok_New: "ok (New f b)"
  unfolding New_def by (rule next_ok) simp_all

lemma ok_moveToken: "ok s \<Longrightarrow> ok (moveToken s)"
  by (auto simp add: ok_def split: if_splits)

lemma ok_reach:
  assumes "ok s" and "reach s t"
  shows "ok t"
  using assms(2,1) by (induction rule: reach_induct) (simp_all add: ok_next)

lemma ok_bounds: "ok s \<Longrightarrow> start s \<le> pos s \<and> pos s \<le> length (src s)"
  by (simp add: ok_def)

lemma ok_eof: "ok s \<Longrightarrow> (current s = eof) = (pos s = length (src s))"
  by (auto simp add: ok_def split: if_splits)

lemma ok_progress: "ok s \<Longrightarrow> current s \<noteq> eof \<Longrightarrow> pos s < pos (next' s)"
  by (auto simp add: ok_def split: if_splits)

lemma ok_ascii:
  assumes "ok s" and "pos s < length (src s)" and "(of_char (src s ! pos s) :: int) < RuneSelf"
  shows "current s = of_char (src s ! pos s)" and "w s = 1" and "pos (next' s) = pos s + 1"
  using assms by (auto simp add: ok_def split: if_splits)

lemma fin_reach: "reach s u \<Longrightarrow> fin s u"
  unfolding fin_def by blast

lemma fin_reach_move: "reach s u \<Longrightarrow> fin s (moveToken u)"
  unfolding fin_def by blast

lemma fin_next: "fin (next' s) t \<Longrightarrow> fin s t"
  unfolding fin_def using reach_next by blast

lemma fin_reach_trans: "reach s t \<Longrightarrow> fin t u \<Longrightarrow> fin s u"
  unfolding fin_def using reach_trans by blast

lemma block_loop_fin: "fin s (snd (block_loop s))"
proof (induction s rule: block_loop.induct)
  case (1 s)
  let ?s1 = "star_loop s"
  have r1: "reach s ?s1" by (simp add: star_loop_upto upto_reach)
  show ?case
  proof (cases "current ?s1 = eof")
    case True
    then have "snd (block_loop s) = ?s1" by (subst block_loop.simps) (simp add: Let_def)
    with r1 show ?thesis by (simp add: fin_reach)
  next
    case ne: False
    show ?thesis
    proof (cases "current (next' ?s1) = of_char CHR ''/''")
      case True
      with ne have "snd (block_loop s) = moveToken (next' (next' ?s1))"
        by (subst block_loop.simps) (simp add: Let_def)
      moreover have "reach s (next' (next' ?s1))"
        using r1 reach_trans reach_step by blast
      ultimately show ?thesis by (simp add: fin_reach_move)
    next
      case False
      with ne have e: "block_loop s = block_loop (next' ?s1)"
        by (subst block_loop.simps) (simp add: Let_def)
      have "fin (next' ?s1) (snd (block_loop (next' ?s1)))"
        using 1 [OF refl ne refl] False by simp
      then show ?thesis
        unfolding e using r1 fin_next fin_reach_trans by blast
    qed
  qed
qed

lemma block_loop_tok: "fst (fst (block_loop s)) = ILLEGAL \<or> fst (fst (block_loop s)) = COMMENT"
proof (induction s rule: block_loop.induct)
  case (1 s)
  then show ?case
    by (subst (1 2) block_loop.simps) (auto simp add: Let_def)
qed

lemma comment_body_fin: "fin s (snd (comment_body s))"
proof (cases "literal s = ''//''")
  case True
  have "reach s (eol_loop s)" by (simp add: eol_loop_upto upto_reach)
  then have "reach s (next' (eol_loop s))"
    using reach_trans reach_step by blast
  with True show ?thesis by (simp add: comment_body_def Let_def fin_reach_move)
next
  case False
  then show ?thesis using block_loop_fin [of s] by (simp add: comment_body_def)
qed

lemma comment_body_tok:
  "fst (fst (comment_body s)) = ILLEGAL \<or> fst (fst (comment_body s)) = COMMENT"
  using block_loop_tok [of s] by (simp add: comment_body_def Let_def)

lemma comment_fin: "fin s (snd (comment s))"
proof -
  have b2: "fin s (snd (comment_body (next' (next' s))))"
    by (rule fin_next, rule fin_next, rule comment_body_fin)
  have b3: "fin s (snd (comment_body (next' (next' (next' s)))))"
    by (rule fin_next, rule fin_next, rule fin_next, rule comment_body_fin)
  have n4: "fin s (moveToken (next' (next' (next' (next' s)))))"
    by (rule fin_next, rule fin_next, rule fin_next, rule fin_next, rule fin_reach_move,
        rule reach_refl)
  have n1: "fin s (moveToken (next' s))"
    by (rule fin_next, rule fin_reach_move, rule reach_refl)
  show ?thesis
    unfolding comment_def Let_def using b2 b3 n4 n1 by simp
qed

lemma comment_tok: "fst (fst (comment s)) = ILLEGAL \<or> fst (fst (comment s)) = COMMENT"
  unfolding comment_def Let_def
  using comment_body_tok [of "next' (next' s)"] comment_body_tok [of "next' (next' (next' s))"]
  by simp

lemma skipSpace_reach: "reach s (skipSpace_loop s)"
  by (simp add: skipSpace_loop_upto upto_reach)

lemma Scan_fin: "fin (skipSpace s) (snd (Scan T s))"
proof -
  let ?t = "skipSpace s"
  have d: "fin ?t (moveToken (digits_loop ?t))"
    by (simp add: digits_loop_upto upto_reach fin_reach_move)
  have i: "fin ?t (moveToken (ident_loop T ?t))"
    by (simp add: ident_loop_upto upto_reach fin_reach_move)
  have r1: "fin ?t (next' ?t)" by (simp add: fin_reach)
  have r2: "fin ?t (next' (next' ?t))"
    by (rule fin_next, rule fin_next, rule fin_reach, rule reach_refl)
  have m: "fin ?t (moveToken (next' ?t))"
    by (rule fin_next, rule fin_reach_move, rule reach_refl)
  have e: "fin ?t ?t" by (simp add: fin_reach)
  show ?thesis
    unfolding Scan_def Let_def
    using d i r1 r2 m e comment_fin [of ?t]
    by (auto split: prod.splits)
qed

lemma Scan_position:
  "fst (fst (Scan T s)) =
     \<lparr>pfile = filename s, pline = line (skipSpace_loop s), pcolumn = col (skipSpace_loop s)\<rparr>"
proof -
  have "filename (skipSpace_loop s) = filename s"
    using reach_frame [OF skipSpace_reach] by simp
  then show ?thesis
    unfolding Scan_def Let_def by (simp add: skipSpace_def split: prod.splits)
qed

lemma fin_lc_le: "fin s t \<Longrightarrow> lc_le s t"
  unfolding fin_def using reach_lc_le by auto

lemma fin_ok: "ok s \<Longrightarrow> fin s t \<Longrightarrow> ok t"
  unfolding fin_def using ok_reach ok_moveToken by blast

lemma fin_frame: "fin s t \<Longrightarrow> src t = src s \<and> filename t = filename s \<and> pos s \<le> pos t"
  unfolding fin_def using reach_frame by auto

lemma ok_skipSpace: "ok s \<Longrightarrow> ok (skipSpace s)"
  unfolding skipSpace_def using ok_reach [OF _ skipSpace_reach] ok_moveToken by blast

lemma ok_Scan: "ok s \<Longrightarrow> ok (snd (Scan T s))"
  using fin_ok [OF ok_skipSpace Scan_fin] by blast

lemma Scan_lc_le: "lc_le (skipSpace_loop s) (snd (Scan T s))"
  using fin_lc_le [OF Scan_fin, of s T] by (simp add: skipSpace_def)

lemma Scan_positions_mono:
  "lc_le (skipSpace_loop s) (skipSpace_loop (snd (Scan T s)))"
  using Scan_lc_le reach_lc_le [OF skipSpace_reach] lc_le_trans by blast

lemma Lookup_not_EOF: "Lookup l \<noteq> EOF"
  by (auto simp add: Lookup_def keywords'_def split: option.splits if_splits)

lemma simple_token_not_EOF: "simple_token c \<noteq> EOF"
  by (simp add: simple_token_def)

lemma Scan_EOF:
  "(fst (snd (fst (Scan T s))) = EOF) = (current (skipSpace_loop s) = eof)"
  unfolding Scan_def Let_def
  using comment_tok [of "skipSpace s"] Lookup_not_EOF simple_token_not_EOF
  by (auto simp add: skipSpace_def split: prod.splits)

lemma Scan_at_eof:
  assumes "current (skipSpace_loop s) = eof"
  shows "Scan T s = ((\<lparr>pfile = filename s, pline = line (skipSpace_loop s),
                       pcolumn = col (skipSpace_loop s)\<rparr>, EOF, ''''), skipSpace s)"
proof -
  have "filename (skipSpace_loop s) = filename s"
    using reach_frame [OF skipSpace_reach] by simp
  with assms show ?thesis
    unfolding Scan_def Let_def by (simp add: skipSpace_def)
qed

lemma skipSpace_loop_eof: "current s = eof \<Longrightarrow> skipSpace_loop s = s"
  by (subst skipSpace_loop.simps) simp

lemma skipSpace_eof_idem:
  "current (skipSpace_loop s) = eof \<Longrightarrow> skipSpace_loop (skipSpace s) = skipSpace s"
  by (simp add: skipSpace_def skipSpace_loop_eof)

lemma funpow_next_Suc: "(next' ^^ n) (next' s) = (next' ^^ Suc n) s"
  by (simp add: funpow_swap1)

lemma upto_steps:
  assumes "ok s"
  shows "\<exists>n. upto G s = (next' ^^ n) s \<and> pos s + n \<le> pos (upto G s)"
  using assms
proof (induction G s rule: upto.induct)
  case (1 G s)
  show ?case
  proof (cases "G (current s) \<and> current s \<noteq> eof")
    case True
    then have u: "upto G s = upto G (next' s)" by (subst upto.simps) simp
    from 1(2) have "ok (next' s)" by (rule ok_next)
    with 1(1) True obtain m where
      m: "upto G (next' s) = (next' ^^ m) (next' s)" "pos (next' s) + m \<le> pos (upto G (next' s))"
      by blast
    have "pos s < pos (next' s)" using ok_progress [OF 1(2)] True by blast
    with m u have "upto G s = (next' ^^ Suc m) s \<and> pos s + Suc m \<le> pos (upto G s)"
      by (simp add: funpow_next_Suc del: funpow.simps next_frame)
    then show ?thesis by blast
  next
    case False
    then have "upto G s = s" by (subst upto.simps) auto
    then have "upto G s = (next' ^^ 0) s \<and> pos s + 0 \<le> pos (upto G s)" by simp
    then show ?thesis by blast
  qed
qed

lemma upto_bounded:
  assumes "ok s"
  shows "\<exists>n. n \<le> length (src s) - pos s \<and> upto G s = (next' ^^ n) s"
proof -
  from upto_steps [OF assms] obtain n where
    n: "upto G s = (next' ^^ n) s" "pos s + n \<le> pos (upto G s)" by blast
  have "ok (upto G s)" using assms upto_reach by (rule ok_reach)
  then have "pos (upto G s) \<le> length (src (upto G s))" by (simp add: ok_bounds)
  moreover have "src (upto G s) = src s" using reach_frame [OF upto_reach] by simp
  ultimately have "n \<le> length (src s) - pos s" using n(2) by simp
  with n(1) show ?thesis by blast
qed

lemma block_loop_steps:
  assumes "ok s"
  shows "\<exists>n. (snd (block_loop s) = (next' ^^ n) s \<or> snd (block_loop s) = moveToken ((next' ^^ n) s))
             \<and> pos s + n \<le> pos (snd (block_loop s))"
  using assms
proof (induction s rule: block_loop.induct)
  case (1 s)
  let ?s1 = "star_loop s"
  from upto_steps [OF 1(2)] obtain a where
    a: "?s1 = (next' ^^ a) s" "pos s + a \<le> pos ?s1"
    unfolding star_loop_upto by blast
  have ok1: "ok ?s1" using 1(2) upto_reach unfolding star_loop_upto by (rule ok_reach)
  show ?case
  proof (cases "current ?s1 = eof")
    case True
    then have "snd (block_loop s) = ?s1" by (subst block_loop.simps) (simp add: Let_def)
    with a show ?thesis by metis
  next
    case ne: False
    let ?s2 = "next' ?s1"
    have ok2: "ok ?s2" using ok1 by (rule ok_next)
    have p2: "pos ?s1 < pos ?s2" using ok1 ne by (rule ok_progress)
    have s2: "?s2 = (next' ^^ Suc a) s" using a(1) by simp
    show ?thesis
    proof (cases "current ?s2 = of_char CHR ''/''")
      case True
      with ne have e: "snd (block_loop s) = moveToken (next' ?s2)"
        by (subst block_loop.simps) (simp add: Let_def)
      have "current ?s2 \<noteq> eof" using True by simp
      with ok2 have p3: "pos ?s2 < pos (next' ?s2)" by (rule ok_progress)
      have "next' ?s2 = (next' ^^ Suc (Suc a)) s" using a(1) by simp
      moreover have "pos s + Suc (Suc a) \<le> pos (moveToken (next' ?s2))"
        using a(2) p2 p3 by (simp del: next_frame)
      ultimately show ?thesis unfolding e by metis
    next
      case False
      with ne have e: "block_loop s = block_loop ?s2"
        by (subst block_loop.simps) (simp add: Let_def)
      from 1(1) [OF refl ne refl _ ok2] False obtain m where
        m: "snd (block_loop ?s2) = (next' ^^ m) ?s2 \<or> snd (block_loop ?s2) = moveToken ((next' ^^ m) ?s2)"
           "pos ?s2 + m \<le> pos (snd (block_loop ?s2))"
        by auto
      have "(next' ^^ m) ?s2 = (next' ^^ (m + Suc a)) s"
        unfolding s2 by (simp only: funpow_add o_apply)
      moreover have "pos s + (m + Suc a) \<le> pos (snd (block_loop ?s2))"
        using a(2) p2 m(2) by (simp del: next_frame)
      ultimately show ?thesis unfolding e using m(1) by metis
    qed
  qed
qed

lemma block_loop_bounded:
  assumes "ok s"
  shows "\<exists>n. n \<le> length (src s) - pos s \<and>
     (snd (block_loop s) = (next' ^^ n) s \<or> snd (block_loop s) = moveToken ((next' ^^ n) s))"
proof -
  from block_loop_steps [OF assms] obtain n where
    n: "snd (block_loop s) = (next' ^^ n) s \<or> snd (block_loop s) = moveToken ((next' ^^ n) s)"
       "pos s + n \<le> pos (snd (block_loop s))" by blast
  have "ok (snd (block_loop s))" using assms block_loop_fin by (rule fin_ok)
  then have "pos (snd (block_loop s)) \<le> length (src (snd (block_loop s)))"
    by (simp add: ok_bounds)
  moreover have "src (snd (block_loop s)) = src s" using fin_frame [OF block_loop_fin] by simp
  ultimately have "n \<le> length (src s) - pos s" using n(2) by simp
  with n(1) show ?thesis by blast
qed

lemma ok_after: "ok s \<Longrightarrow> ok (after T n s)"
  by (induction n arbitrary: s) (simp_all add: ok_Scan)

lemma er_fields [simp]:
  "src (er s) = src s" "filename (er s) = filename s" "current (er s) = current s"
  "w (er s) = w s" "pos (er s) = pos s" "line (er s) = line s" "col (er s) = col s"
  "start (er s) = start s" "tokLine (er s) = tokLine s" "tokCol (er s) = tokCol s"
  by (simp_all add: er_def)

lemma cur_fields [simp]:
  "src (cur s) = src s" "filename (cur s) = filename s" "current (cur s) = current s"
  "w (cur s) = w s" "pos (cur s) = pos s" "line (cur s) = line s" "col (cur s) = col s"
  by (simp_all add: cur_def)

lemma er_next: "er (next' (er s)) = er (next' s)"
  by (simp add: er_def next'_def Let_def split: prod.splits)

lemma cur_next: "cur (next' (cur s)) = cur (next' s)"
  by (simp add: cur_def next'_def Let_def split: prod.splits)

lemma er_eqD:
  assumes "er s = er t"
  shows "src s = src t" "filename s = filename t" "current s = current t" "w s = w t"
    "pos s = pos t" "line s = line t" "col s = col t" "start s = start t"
    "tokLine s = tokLine t" "tokCol s = tokCol t"
  using arg_cong [OF assms, of src] arg_cong [OF assms, of filename]
    arg_cong [OF assms, of current] arg_cong [OF assms, of w] arg_cong [OF assms, of pos]
    arg_cong [OF assms, of line] arg_cong [OF assms, of col] arg_cong [OF assms, of start]
    arg_cong [OF assms, of tokLine] arg_cong [OF assms, of tokCol]
  by simp_all

lemma cur_eqD:
  assumes "cur s = cur t"
  shows "src s = src t" "filename s = filename t" "current s = current t" "w s = w t"
    "pos s = pos t" "line s = line t" "col s = col t"
  using arg_cong [OF assms, of src] arg_cong [OF assms, of filename]
    arg_cong [OF assms, of current] arg_cong [OF assms, of w] arg_cong [OF assms, of pos]
    arg_cong [OF assms, of line] arg_cong [OF assms, of col]
  by simp_all

lemma cur_eqI:
  assumes "src s = src t" "filename s = filename t" "current s = current t" "w s = w t"
    "pos s = pos t" "line s = line t" "col s = col t"
  shows "cur s = cur t"
  using assms by (simp add: cur_def)

lemma er_moveToken: "cur s = cur t \<Longrightarrow> er (moveToken s) = er (moveToken t)"
  using cur_eqD [of s t] by (simp add: er_def moveToken_def)

lemma er_moveToken': "er s = er t \<Longrightarrow> er (moveToken s) = er (moveToken t)"
  using er_eqD [of s t] by (simp add: er_def moveToken_def)

lemma er_cur: "er s = er t \<Longrightarrow> cur s = cur t"
  using er_eqD [of s t] by (simp add: cur_def)

lemma er_literal: "er s = er t \<Longrightarrow> literal s = literal t"
  using er_eqD [of s t] by (simp add: literal_def)

lemma er_next_cong: "er s = er t \<Longrightarrow> er (next' s) = er (next' t)"
  using er_next [of s] er_next [of t] by simp

lemma cur_next_cong: "cur s = cur t \<Longrightarrow> cur (next' s) = cur (next' t)"
  using cur_next [of s] cur_next [of t] by simp

lemma upto_cong:
  assumes "\<And>s t. e s = e t \<Longrightarrow> current s = current t"
    and "\<And>s t. e s = e t \<Longrightarrow> e (next' s) = e (next' t)"
    and "e s = e t"
  shows "e (upto G s) = e (upto G t)"
  using assms(3)
proof (induction G s arbitrary: t rule: upto.induct)
  case (1 G s)
  have c: "current s = current t" using 1(2) by (rule assms(1))
  show ?case
  proof (cases "G (current s) \<and> current s \<noteq> eof")
    case True
    then have "upto G s = upto G (next' s)" by (subst upto.simps) simp
    moreover from True c have "upto G t = upto G (next' t)" by (subst upto.simps) simp
    moreover have "e (upto G (next' s)) = e (upto G (next' t))"
      using 1(1) [OF True] assms(2) [OF 1(2)] by blast
    ultimately show ?thesis by simp
  next
    case False
    then have "upto G s = s" by (subst upto.simps) auto
    moreover from False c have "upto G t = t" by (subst upto.simps) auto
    ultimately show ?thesis using 1(2) by simp
  qed
qed

lemma er_upto:
  assumes "er s = er t"
  shows "er (upto G s) = er (upto G t)"
proof (rule upto_cong [where e = er])
  show "current a = current b" if "er a = er b" for a b using that by (rule er_eqD)
  show "er (next' a) = er (next' b)" if "er a = er b" for a b using that by (rule er_next_cong)
  show "er s = er t" by (rule assms)
qed

lemma cur_upto:
  assumes "cur s = cur t"
  shows "cur (upto G s) = cur (upto G t)"
proof (rule upto_cong [where e = cur])
  show "current a = current b" if "cur a = cur b" for a b using that by (rule cur_eqD)
  show "cur (next' a) = cur (next' b)" if "cur a = cur b" for a b using that by (rule cur_next_cong)
  show "cur s = cur t" by (rule assms)
qed

lemma er_block_loop:
  assumes "er s = er t"
  shows "fst (block_loop s) = fst (block_loop t) \<and> er (snd (block_loop s)) = er (snd (block_loop t))"
  using assms
proof (induction s arbitrary: t rule: block_loop.induct)
  case (1 s)
  let ?s1 = "star_loop s" and ?t1 = "star_loop t"
  have e1: "er ?s1 = er ?t1" unfolding star_loop_upto using 1(2) by (rule er_upto)
  have c1: "current ?s1 = current ?t1" using e1 by (rule er_eqD)
  have e2: "er (next' ?s1) = er (next' ?t1)" using e1 by (rule er_next_cong)
  have c2: "current (next' ?s1) = current (next' ?t1)" using e2 by (rule er_eqD)
  have e3: "er (next' (next' ?s1)) = er (next' (next' ?t1))" using e2 by (rule er_next_cong)
  show ?case
  proof (cases "current ?s1 = eof")
    case True
    then have "block_loop s = ((ILLEGAL, literal ?s1), ?s1)"
      by (subst block_loop.simps) (simp add: Let_def)
    moreover from True c1 have "block_loop t = ((ILLEGAL, literal ?t1), ?t1)"
      by (subst block_loop.simps) (simp add: Let_def)
    ultimately show ?thesis using e1 er_literal [OF e1] by simp
  next
    case ne: False
    show ?thesis
    proof (cases "current (next' ?s1) = of_char CHR ''/''")
      case True
      with ne have "block_loop s =
          ((COMMENT, literal (next' (next' ?s1))), moveToken (next' (next' ?s1)))"
        by (subst block_loop.simps) (simp add: Let_def)
      moreover from True ne c1 c2 have "block_loop t =
          ((COMMENT, literal (next' (next' ?t1))), moveToken (next' (next' ?t1)))"
        by (subst block_loop.simps) (simp add: Let_def)
      ultimately show ?thesis using er_literal [OF e3] er_moveToken' [OF e3] by simp
    next
      case False
      with ne have "block_loop s = block_loop (next' ?s1)"
        by (subst block_loop.simps) (simp add: Let_def)
      moreover from False ne c1 c2 have "block_loop t = block_loop (next' ?t1)"
        by (subst block_loop.simps) (simp add: Let_def)
      moreover have "fst (block_loop (next' ?s1)) = fst (block_loop (next' ?t1))
          \<and> er (snd (block_loop (next' ?s1))) = er (snd (block_loop (next' ?t1)))"
        using 1(1) [OF refl ne refl _ e2] False by simp
      ultimately show ?thesis by simp
    qed
  qed
qed

lemma er_comment_body:
  assumes "er s = er t"
  shows "fst (comment_body s) = fst (comment_body t)
         \<and> er (snd (comment_body s)) = er (snd (comment_body t))"
proof -
  have l: "literal s = literal t" using assms by (rule er_literal)
  have "er (eol_loop s) = er (eol_loop t)" unfolding eol_loop_upto using assms by (rule er_upto)
  then have e: "er (next' (eol_loop s)) = er (next' (eol_loop t))" by (rule er_next_cong)
  show ?thesis
    using l er_block_loop [OF assms] er_literal [OF e] er_moveToken' [OF e]
    by (simp add: comment_body_def Let_def)
qed

lemma er_comment:
  assumes "er s = er t"
  shows "fst (comment s) = fst (comment t) \<and> er (snd (comment s)) = er (snd (comment t))"
proof -
  have e1: "er (next' s) = er (next' t)" using assms by (rule er_next_cong)
  have e2: "er (next' (next' s)) = er (next' (next' t))" using e1 by (rule er_next_cong)
  have e3: "er (next' (next' (next' s))) = er (next' (next' (next' t)))"
    using e2 by (rule er_next_cong)
  have e4: "er (next' (next' (next' (next' s)))) = er (next' (next' (next' (next' t))))"
    using e3 by (rule er_next_cong)
  show ?thesis
    unfolding comment_def Let_def
    using er_eqD(3) [OF e1] er_eqD(3) [OF e2] er_eqD(3) [OF e3]
      er_comment_body [OF e2] er_comment_body [OF e3]
      er_literal [OF e1] er_moveToken' [OF e1] er_literal [OF e4] er_moveToken' [OF e4]
    by simp
qed

lemma Scan_cong:
  assumes "cur s = cur t"
  shows "fst (Scan T s) = fst (Scan T t) \<and> cur (snd (Scan T s)) = cur (snd (Scan T t))"
proof -
  let ?s = "skipSpace s" and ?t = "skipSpace t"
  have "cur (skipSpace_loop s) = cur (skipSpace_loop t)"
    unfolding skipSpace_loop_upto using assms by (rule cur_upto)
  then have e0: "er ?s = er ?t" unfolding skipSpace_def by (rule er_moveToken)
  have f: "filename ?s = filename ?t" "tokLine ?s = tokLine ?t" "tokCol ?s = tokCol ?t"
    "current ?s = current ?t"
    using e0 by (rule er_eqD)+
  have d: "er (digits_loop ?s) = er (digits_loop ?t)"
    unfolding digits_loop_upto using e0 by (rule er_upto)
  have i: "er (ident_loop T ?s) = er (ident_loop T ?t)"
    unfolding ident_loop_upto using e0 by (rule er_upto)
  have n1: "er (next' ?s) = er (next' ?t)" using e0 by (rule er_next_cong)
  have n2: "er (next' (next' ?s)) = er (next' (next' ?t))" using n1 by (rule er_next_cong)
  have "fst (Scan T s) = fst (Scan T t) \<and> er (snd (Scan T s)) = er (snd (Scan T t))"
    unfolding Scan_def Let_def
    using f e0 er_literal [OF d] er_moveToken' [OF d] er_literal [OF i] er_moveToken' [OF i]
      n1 n2 er_eqD(3) [OF n1] er_literal [OF n1] er_moveToken' [OF n1] er_comment [OF e0]
    by (simp add: case_prod_unfold)
  then show ?thesis using er_cur by blast
qed

lemma remaining_Nil: "ok s \<Longrightarrow> (remaining s = []) = (current s = eof)"
  by (auto simp add: remaining_def ok_def split: if_splits)

lemma remaining_Cons:
  assumes "ok s" and "remaining s = c # r" and "(of_char c :: int) < RuneSelf"
  shows "current s = of_char c" and "w s = 1" and "remaining (next' s) = r"
    and "pos (next' s) = pos s + 1" and "pos s < length (src s)"
proof -
  have p: "pos s < length (src s)"
    using assms(2) by (cases "pos s < length (src s)") (simp_all add: remaining_def)
  then have "drop (pos s) (src s) = src s ! pos s # drop (Suc (pos s)) (src s)"
    by (simp add: Cons_nth_drop_Suc)
  with assms(2) have c: "src s ! pos s = c" and r: "drop (Suc (pos s)) (src s) = r"
    by (simp_all add: remaining_def)
  from ok_ascii [OF assms(1) p] assms(3) c
  show "current s = of_char c" and w: "w s = 1" and "pos (next' s) = pos s + 1"
    by simp_all
  from r w show "remaining (next' s) = r" by (simp add: remaining_def)
  show "pos s < length (src s)" by (rule p)
qed

lemma upto_run:
  assumes "ok s" and "remaining s = run @ rst"
    and "\<forall>c\<in>set run. (of_char c :: int) < RuneSelf \<and> G (of_char c)"
    and "rst = [] \<or> ((of_char (hd rst) :: int) < RuneSelf \<and> \<not> G (of_char (hd rst)))"
  shows "remaining (upto G s) = rst \<and> pos (upto G s) = pos s + length run"
  using assms(1-3)
proof (induction run arbitrary: s)
  case Nil
  have "upto G s = s"
  proof (cases rst)
    case Nil
    with Nil.prems have "current s = eof" by (simp add: remaining_Nil [symmetric])
    then show ?thesis by (subst upto.simps) simp
  next
    case (Cons c r)
    with assms(4) have c: "(of_char c :: int) < RuneSelf" "\<not> G (of_char c)" by simp_all
    from Nil.prems Cons have "remaining s = c # r" by simp
    from remaining_Cons(1) [OF Nil.prems(1) this c(1)] c(2) show ?thesis
      by (subst upto.simps) simp
  qed
  with Nil.prems show ?case by simp
next
  case (Cons c run)
  from Cons.prems have r: "remaining s = c # (run @ rst)"
    and c: "(of_char c :: int) < RuneSelf" "G (of_char c)" by simp_all
  note rc = remaining_Cons [OF Cons.prems(1) r c(1)]
  have "current s \<noteq> eof"
    using rc(1) of_char_int_nonneg [of c] by simp
  with rc(1) c(2) have u: "upto G s = upto G (next' s)" by (subst upto.simps) simp
  have "remaining (upto G (next' s)) = rst \<and> pos (upto G (next' s)) = pos (next' s) + length run"
    using Cons.IH [OF ok_next [OF Cons.prems(1)] rc(3)] Cons.prems(3) by simp
  then show ?case unfolding u using rc(4) by (simp del: next_frame)
qed

lemma closed_in_tl: "closed_in (tl r) \<Longrightarrow> closed_in r"
proof (cases r)
  case Nil
  then show "closed_in (tl r) \<Longrightarrow> closed_in r" by simp
next
  case (Cons a r')
  then show "closed_in (tl r) \<Longrightarrow> closed_in r" by (cases r') simp_all
qed

lemma closed_in_drop: "closed_in (drop n r) \<Longrightarrow> closed_in r"
proof (induction n arbitrary: r)
  case 0
  then show ?case by simp
next
  case (Suc n)
  then have "closed_in (drop n (tl r))" by (simp add: drop_Suc)
  then have "closed_in (tl r)" by (rule Suc.IH)
  then show ?case by (rule closed_in_tl)
qed

lemma reach_remaining:
  assumes "reach s t"
  shows "remaining t = drop (pos t - pos s) (remaining s)"
  using reach_frame [OF assms] by (simp add: remaining_def)

lemma block_loop_unclosed:
  assumes "ok s" and "\<forall>c\<in>set (remaining s). (of_char c :: int) < RuneSelf"
    and "\<not> closed_in (remaining s)"
  shows "\<exists>u. block_loop s = ((ILLEGAL, literal u), u) \<and> current u = eof \<and> reach s u"
  using assms
proof (induction s rule: block_loop.induct)
  case (1 s)
  let ?s1 = "star_loop s"
  have r1: "reach s ?s1" by (simp add: star_loop_upto upto_reach)
  have ok1: "ok ?s1" using "1.prems"(1) r1 by (rule ok_reach)
  have rem1: "remaining ?s1 = drop (pos ?s1 - pos s) (remaining s)"
    using r1 by (rule reach_remaining)
  have a1: "\<forall>c\<in>set (remaining ?s1). (of_char c :: int) < RuneSelf"
    unfolding rem1 using "1.prems"(2) by (meson in_set_dropD)
  have n1: "\<not> closed_in (remaining ?s1)"
    unfolding rem1 using "1.prems"(3) closed_in_drop by blast
  show ?case
  proof (cases "current ?s1 = eof")
    case True
    then have "block_loop s = ((ILLEGAL, literal ?s1), ?s1)"
      by (subst block_loop.simps) (simp add: Let_def)
    with True r1 show ?thesis by blast
  next
    case ne: False
    have star: "current ?s1 = of_char CHR ''*''"
      using upto_exit [of "\<lambda>c. c \<noteq> of_char CHR ''*''" s] ne by (simp add: star_loop_upto)
    from ne ok1 obtain c r where cr: "remaining ?s1 = c # r"
      by (cases "remaining ?s1") (simp_all add: remaining_Nil)
    with a1 have c: "(of_char c :: int) < RuneSelf" by simp
    note rc = remaining_Cons [OF ok1 cr c]
    from rc(1) star have "(of_char c :: int) = of_char CHR ''*''" by (simp only:)
    then have cs: "c = CHR ''*''" by (rule of_char_eqI)
    let ?s2 = "next' ?s1"
    have ok2: "ok ?s2" using ok1 by (rule ok_next)
    have a2: "\<forall>c\<in>set (remaining ?s2). (of_char c :: int) < RuneSelf"
      using a1 cr rc(3) by simp
    have n2: "\<not> closed_in (remaining ?s2)"
      using n1 cr rc(3) closed_in_tl [of "remaining ?s1"] by auto
    have nslash: "current ?s2 \<noteq> of_char CHR ''/''"
    proof
      assume sl: "current ?s2 = of_char CHR ''/''"
      then have "current ?s2 \<noteq> eof" by simp
      with ok2 obtain d r' where dr: "remaining ?s2 = d # r'"
        by (cases "remaining ?s2") (simp_all add: remaining_Nil)
      with a2 have d: "(of_char d :: int) < RuneSelf" by simp
      from remaining_Cons(1) [OF ok2 dr d] sl have "(of_char d :: int) = of_char CHR ''/''"
        by (simp only:)
      then have "d = CHR ''/''" by (rule of_char_eqI)
      with cs cr rc(3) dr have "remaining ?s1 = CHR ''*'' # CHR ''/'' # r'" by simp
      then have "closed_in (remaining ?s1)" by simp
      with n1 show False by simp
    qed
    with ne have e: "block_loop s = block_loop ?s2"
      by (subst block_loop.simps) (simp add: Let_def)
    from "1.IH" [OF refl ne refl nslash ok2 a2 n2] obtain u where
      u: "block_loop ?s2 = ((ILLEGAL, literal u), u)" "current u = eof" "reach ?s2 u"
      by blast
    have "reach s u" using r1 reach_next [OF u(3)] by (rule reach_trans)
    with e u show ?thesis by auto
  qed
qed

lemma of_char_is_LF: "((of_char c :: int) = 10) = (c = CHR 0x0A)"
proof -
  have "(10::int) = of_char (CHR 0x0A)" by simp
  then show ?thesis by (simp only: of_char_eq_iff)
qed

lemma of_char_is_CR: "((of_char c :: int) = 13) = (c = CHR 0x0D)"
proof -
  have "(13::int) = of_char (CHR 0x0D)" by simp
  then show ?thesis by (simp only: of_char_eq_iff)
qed

lemma of_char_is_star: "((of_char c :: int) = 42) = (c = CHR ''*'')"
proof -
  have "(42::int) = of_char (CHR ''*'')" by simp
  then show ?thesis by (simp only: of_char_eq_iff)
qed

lemma of_char_is_slash: "((of_char c :: int) = 47) = (c = CHR ''/'')"
proof -
  have "(47::int) = of_char (CHR ''/'')" by simp
  then show ?thesis by (simp only: of_char_eq_iff)
qed

lemma skipSpace_facts:
  assumes "ok s"
  shows "ok (skipSpace s)" and "start (skipSpace s) = pos (skipSpace s)"
    and "src (skipSpace s) = src s" and "filename (skipSpace s) = filename s"
  using ok_skipSpace [OF assms] reach_frame [OF skipSpace_reach, of s]
  by (simp_all add: skipSpace_def)

lemma Scan_on_slash:
  assumes "current (skipSpace s) = of_char CHR ''/''"
  shows "Scan T s =
     ((\<lparr>pfile = filename (skipSpace s), pline = tokLine (skipSpace s),
         pcolumn = tokCol (skipSpace s)\<rparr>, fst (comment (skipSpace s))),
      snd (comment (skipSpace s)))"
  using assms
  by (simp add: Scan_def Let_def isDigit_def IsLetter_def startComment_def case_prod_unfold)

lemma literal_remaining:
  assumes "start u = pos t" and "src u = src t"
  shows "literal u = take (pos u - pos t) (remaining t)"
  using assms by (simp add: literal_def remaining_def)

lemma two_steps:
  assumes "ok t" and "remaining t = a # b # r"
    and "(of_char a :: int) < RuneSelf" and "(of_char b :: int) < RuneSelf"
  shows "current t = of_char a" and "current (next' t) = of_char b"
    and "ok (next' (next' t))" and "remaining (next' (next' t)) = r"
    and "pos (next' (next' t)) = pos t + 2" and "reach t (next' (next' t))"
proof -
  note r0 = remaining_Cons [OF assms(1,2,3)]
  have ok1: "ok (next' t)" using assms(1) by (rule ok_next)
  note r1 = remaining_Cons [OF ok1 r0(3) assms(4)]
  show "current t = of_char a" by (rule r0(1))
  show "current (next' t) = of_char b" by (rule r1(1))
  show "ok (next' (next' t))" using ok1 by (rule ok_next)
  show "remaining (next' (next' t)) = r" by (rule r1(3))
  show "pos (next' (next' t)) = pos t + 2" using r0(4) r1(4) by (simp del: next_frame)
  show "reach t (next' (next' t))" by (rule reach_next, rule reach_next, rule reach_refl)
qed

lemma literal_at_eof:
  assumes "ok u" and "current u = eof" and "start u = pos t" and "src u = src t"
  shows "literal u = remaining t"
proof -
  have "pos u = length (src u)" using assms(1,2) by (simp add: ok_eof)
  then show ?thesis using assms(3,4) by (simp add: literal_def remaining_def)
qed

lemma comment_unclosed:
  assumes "ok t" and "start t = pos t" and "remaining t = ''/*'' @ body"
    and "\<forall>c\<in>set body. (of_char c :: int) < RuneSelf" and "\<not> closed_in body"
  shows "\<exists>u. comment t = ((ILLEGAL, ''/*'' @ body), u) \<and> current u = eof"
proof -
  let ?t1 = "next' t" and ?t2 = "next' (next' t)"
  have r: "remaining t = CHR ''/'' # CHR ''*'' # body" using assms(3) by simp
  note ts = two_steps [OF assms(1) r]
  have c0: "current t = of_char CHR ''/''" and c1: "current ?t1 = of_char CHR ''*''"
    and ok2: "ok ?t2" and r2: "remaining ?t2 = body" and p2: "pos ?t2 = pos t + 2"
    and re2: "reach t ?t2"
    using ts by simp_all
  have fr2: "start ?t2 = pos t" "src ?t2 = src t" using assms(2) by simp_all
  have l2: "literal ?t2 = ''/*''"
    unfolding literal_remaining [OF fr2] p2 r by simp
  have fin: "\<exists>u. block_loop v = ((ILLEGAL, ''/*'' @ body), u) \<and> current u = eof"
    if v: "ok v" "reach t v" "\<forall>c\<in>set (remaining v). (of_char c :: int) < RuneSelf"
      "\<not> closed_in (remaining v)" for v
  proof -
    from block_loop_unclosed [OF v(1,3,4)] obtain u where
      u: "block_loop v = ((ILLEGAL, literal u), u)" "current u = eof" "reach v u" by blast
    have ru: "reach t u" using v(2) u(3) by (rule reach_trans)
    have "ok u" using assms(1) ru by (rule ok_reach)
    moreover have "start u = pos t" "src u = src t"
      using reach_frame [OF ru] assms(2) by simp_all
    ultimately have "literal u = remaining t" using u(2) by (simp add: literal_at_eof)
    with u assms(3) show ?thesis by auto
  qed
  show ?thesis
  proof (cases "current ?t2 = of_char CHR ''*''")
    case False
    then have ct: "comment t = block_loop ?t2"
      using c1 l2 by (simp add: comment_def comment_body_def Let_def)
    have "\<forall>c\<in>set (remaining ?t2). (of_char c :: int) < RuneSelf"
      using assms(4) r2 by simp
    moreover have "\<not> closed_in (remaining ?t2)"
      using assms(5) r2 by simp
    ultimately have "\<exists>u. block_loop ?t2 = ((ILLEGAL, ''/*'' @ body), u) \<and> current u = eof"
      using ok2 re2 fin by blast
    with ct show ?thesis by simp
  next
    case True
    let ?t3 = "next' ?t2"
    from True have "current ?t2 \<noteq> eof" by simp
    with ok2 r2 obtain c r' where b: "body = c # r'"
      by (cases body) (simp_all add: remaining_Nil [symmetric])
    with assms(4) have c: "(of_char c :: int) < RuneSelf" by simp
    note r3 = remaining_Cons [OF ok2 r2 [unfolded b] c]
    from r3(1) True have cs: "c = CHR ''*''" by (simp add: of_char_is_star)
    have ok3: "ok ?t3" using ok2 by (rule ok_next)
    have re3: "reach t ?t3" using re2 reach_step by (rule reach_trans)
    have p3: "pos ?t3 = pos t + 3" using r3(4) p2 by (simp del: next_frame)
    have fr3: "start ?t3 = pos t" "src ?t3 = src t" using assms(2) by simp_all
    have l3: "literal ?t3 \<noteq> ''//''"
      unfolding literal_remaining [OF fr3] p3 r b by (simp add: numeral_3_eq_3)
    have a3: "\<forall>c\<in>set (remaining ?t3). (of_char c :: int) < RuneSelf"
      using assms(4) r3(3) b by simp
    have n3: "\<not> closed_in (remaining ?t3)"
      using assms(5) r3(3) b closed_in_tl [of body] by auto
    have ns: "current ?t3 \<noteq> of_char CHR ''/''"
    proof
      assume sl: "current ?t3 = of_char CHR ''/''"
      then have "current ?t3 \<noteq> eof" by simp
      with ok3 obtain d r'' where d: "remaining ?t3 = d # r''"
        by (cases "remaining ?t3") (simp_all add: remaining_Nil)
      with a3 have "(of_char d :: int) < RuneSelf" by simp
      from remaining_Cons(1) [OF ok3 d this] sl have "d = CHR ''/''"
        by (simp add: of_char_is_slash)
      with d r3(3) b cs have "body = CHR ''*'' # CHR ''/'' # r''" by simp
      then have "closed_in body" by simp
      with assms(5) show False by simp
    qed
    have "comment t = block_loop ?t3"
      using c1 True ns l3 by (simp add: comment_def comment_body_def Let_def)
    moreover have "\<exists>u. block_loop ?t3 = ((ILLEGAL, ''/*'' @ body), u) \<and> current u = eof"
      using ok3 re3 a3 n3 by (rule fin)
    ultimately show ?thesis by simp
  qed
qed

lemma comment_line:
  assumes "ok t" and "start t = pos t" and "remaining t = ''//'' @ body @ e # rst"
    and "\<forall>c\<in>set body. (of_char c :: int) < RuneSelf \<and> c \<noteq> CHR 0x0A \<and> c \<noteq> CHR 0x0D"
    and "e = CHR 0x0A \<or> e = CHR 0x0D"
  shows "fst (comment t) = (COMMENT, ''//'' @ body @ [e])
         \<and> pos (snd (comment t)) = pos t + 2 + length body + 1
         \<and> start (snd (comment t)) = pos (snd (comment t))
         \<and> remaining (snd (comment t)) = rst"
proof -
  let ?t1 = "next' t" and ?t2 = "next' (next' t)"
  let ?G = "\<lambda>c::int. c \<noteq> of_char CHR 0x0A \<and> c \<noteq> of_char CHR 0x0D"
  have r: "remaining t = CHR ''/'' # CHR ''/'' # (body @ e # rst)" using assms(3) by simp
  note ts = two_steps [OF assms(1) r]
  have c1: "current ?t1 = of_char CHR ''/''"
    and ok2: "ok ?t2" and r2: "remaining ?t2 = body @ e # rst" and p2: "pos ?t2 = pos t + 2"
    and re2: "reach t ?t2"
    using ts by simp_all
  have fr2: "start ?t2 = pos t" "src ?t2 = src t" using assms(2) by simp_all
  have l2: "literal ?t2 = ''//''"
    unfolding literal_remaining [OF fr2] p2 r by simp
  let ?u = "eol_loop ?t2"
  have e: "(of_char e :: int) < RuneSelf" "\<not> ?G (of_char e)"
    using assms(5) by auto
  have b: "\<forall>c\<in>set body. (of_char c :: int) < RuneSelf \<and> ?G (of_char c)"
    using assms(4) by (simp add: of_char_is_LF of_char_is_CR)
  have "remaining (upto ?G ?t2) = e # rst \<and> pos (upto ?G ?t2) = pos ?t2 + length body"
    using ok2 r2 b
  proof (rule upto_run)
    show "e # rst = [] \<or> (of_char (hd (e # rst)) :: int) < RuneSelf \<and> \<not> ?G (of_char (hd (e # rst)))"
      using e by simp
  qed
  then have ru: "remaining ?u = e # rst" and pu: "pos ?u = pos t + 2 + length body"
    unfolding eol_loop_upto p2 by simp_all
  have reu: "reach t ?u"
    using re2 upto_reach [of ?t2 ?G] unfolding eol_loop_upto by (rule reach_trans)
  have oku: "ok ?u" using assms(1) reu by (rule ok_reach)
  note rn = remaining_Cons [OF oku ru e(1)]
  let ?v = "next' ?u"
  have pv: "pos ?v = pos t + 2 + length body + 1" using rn(4) pu by (simp del: next_frame)
  have frv: "start ?v = pos t" "src ?v = src t"
    using reach_frame [OF reu] assms(2) by simp_all
  have lv: "literal ?v = ''//'' @ body @ [e]"
    unfolding literal_remaining [OF frv] pv r by (simp add: numeral_3_eq_3)
  have "comment t = ((COMMENT, literal ?v), moveToken ?v)"
    using c1 l2 by (simp add: comment_def comment_body_def Let_def)
  then show ?thesis using lv pv rn(3) by (simp add: remaining_def del: next_frame)
qed

lemma at_token_start:
  assumes "ok s" and "src s = pre @ r" and "pos (skipSpace s) = length pre"
  shows "ok (skipSpace s)" and "start (skipSpace s) = pos (skipSpace s)"
    and "remaining (skipSpace s) = r" and "filename (skipSpace s) = filename s"
  using skipSpace_facts [OF assms(1)] assms(2,3) by (simp_all add: remaining_def)

lemma DecodeRune_size_le: "snd (DecodeRune p) \<le> 4"
  by (simp add: DecodeRune_def Let_def)

lemma DecodeLastRune_size_le: "snd (DecodeLastRune p) \<le> 4"
  using DecodeLastRune_cases [of p] DecodeRune_size_le
  by (elim disjE exE conjE) simp_all

lemma next_w_le: "w (next' s) \<le> 4"
  using DecodeLastRune_size_le [of "drop (pos s + w s) (src s)"]
  by (auto simp add: next'_def Let_def split: prod.splits)

lemma bytecol_refl [simp]: "bytecol s s"
  by (simp add: bytecol_def)

lemma bytecol_trans: "bytecol s t \<Longrightarrow> bytecol t u \<Longrightarrow> bytecol s u"
  by (auto simp add: bytecol_def)

lemma bytecol_next: "bytecol s (next' s)"
  by (simp add: bytecol_def next_line_col)

lemma bytecol_moveToken [simp]:
  "bytecol s (moveToken t) = bytecol s t" "bytecol (moveToken s) t = bytecol s t"
  by (simp_all add: bytecol_def)

lemma reach_bytecol: "reach s t \<Longrightarrow> bytecol s t"
proof (induction rule: reach_induct)
  case refl
  show ?case by simp
next
  case (step u)
  then show ?case using bytecol_next bytecol_trans by blast
qed

lemma fin_bytecol: "fin s t \<Longrightarrow> bytecol s t"
  unfolding fin_def using reach_bytecol by auto

lemma skipSpace_loop_bytecol: "bytecol s (skipSpace_loop s)"
  using skipSpace_reach by (rule reach_bytecol)

lemma Scan_bytecol: "bytecol (skipSpace_loop s) (snd (Scan T s))"
  using fin_bytecol [OF Scan_fin, of s T] by (simp add: skipSpace_def)

lemma Scan_starts_bytecol:
  "bytecol (skipSpace_loop s) (skipSpace_loop (snd (Scan T s)))"
  using Scan_bytecol skipSpace_loop_bytecol by (rule bytecol_trans)

lemma after_bytecol: "bytecol s (after T n s)"
proof (induction n arbitrary: s)
  case 0
  show ?case by simp
next
  case (Suc n)
  have "bytecol s (snd (Scan T s))"
    using skipSpace_loop_bytecol Scan_bytecol by (rule bytecol_trans)
  then show ?case using Suc by (simp add: bytecol_trans)
qed

lemma funpow_reach: "reach s ((next' ^^ k) s)"
  unfolding reach_def by blast

lemma New_bytecol:
  assumes "line t = 0" and "bytecol (New f b) t"
  shows "col t = pos t"
proof -
  let ?i = "\<lparr>filename = f, src = b, current = 0, w = 0, pos = 0, line = 0, col = 0,
            start = 0, tokLine = 0, tokCol = 0, errs = []\<rparr>"
  have "bytecol ?i (New f b)" unfolding New_def by (rule bytecol_next)
  then have "bytecol ?i t" using assms(2) by (rule bytecol_trans)
  with assms(1) show ?thesis by (simp add: bytecol_def)
qed

lemma scans_numeral:
  "scans T (numeral k) s = (case Scan T s of (r, s') \<Rightarrow> r # scans T (pred_numeral k) s')"
  by (simp add: numeral_eq_Suc)

text \<open>The equations that evaluate the scanner on a concrete buffer.\<close>

lemmas eval_defs = New_def Scan_def skipSpace_def next'_def moveToken_def literal_def isDigit_def
  IsLetter_def isAlphanumeric_def startComment_def Let_def DecodeLastRune_def DecodeRune_def
  UTFMax_def RuneStart_def first_def acceptRanges_def contb_def comment_def comment_body_def
  simple_token_def Lookup_def keywords'_def Column_def Line_def
  skipSpace_loop.simps digits_loop.simps ident_loop.simps eol_loop.simps star_loop.simps
  block_loop.simps backup.simps

lemma Scan_eof_fixed:
  assumes "current (skipSpace_loop s) = eof"
  shows "Scan T (skipSpace s) = Scan T s" and "snd (Scan T s) = skipSpace s"
proof -
  have l: "skipSpace_loop (skipSpace s) = skipSpace s"
    using assms by (rule skipSpace_eof_idem)
  then have c: "current (skipSpace_loop (skipSpace s)) = eof"
    using assms by (simp add: skipSpace_def)
  have m: "skipSpace (skipSpace s) = skipSpace s"
    using l by (simp add: skipSpace_def [of "skipSpace s"]) (simp add: skipSpace_def)
  have f: "filename (skipSpace s) = filename s"
    using reach_frame [OF skipSpace_reach, of s] by (simp add: skipSpace_def)
  show "Scan T (skipSpace s) = Scan T s"
    unfolding Scan_at_eof [OF c] Scan_at_eof [OF assms] l m f
    by (simp add: skipSpace_def)
  show "snd (Scan T s) = skipSpace s"
    by (simp add: Scan_at_eof [OF assms])
qed

lemma Scan_stays_at_eof:
  assumes e: "current (skipSpace_loop s) = eof"
  shows "Scan T (after T n s) = Scan T s"
proof (cases n)
  case 0
  then show ?thesis by simp
next
  case (Suc m)
  have "Scan T (after T k (skipSpace s)) = Scan T s \<and> after T k (skipSpace s) = skipSpace s" for k
  proof (induction k)
    case 0
    show ?case using Scan_eof_fixed(1) [OF e] by simp
  next
    case (Suc k)
    have "snd (Scan T (skipSpace s)) = skipSpace s"
      using Scan_eof_fixed [OF e, of T] by simp
    with Suc show ?case using Scan_eof_fixed(1) [OF e, of T] by simp
  qed
  then have "Scan T (after T m (skipSpace s)) = Scan T s" by blast
  moreover have "after T n s = after T m (skipSpace s)"
    using Suc Scan_eof_fixed(2) [OF e, of T] by simp
  ultimately show ?thesis by simp
qed

section \<open>The claims\<close>

text \<open>
  Claim C1, as stated, fails: the column advances by the byte width of the rune, not by
  one. On the eight bytes of the four Greek letters the first rune has width two, one call
  of \<open>next\<close> moves the column by two, and the token after the identifier is at column 9,
  not 5.
\<close>

theorem C1_column_counts_bytes_counterexample:
  "w (New ''f'' greek) = 2
   \<and> col (next' (New ''f'' greek)) \<noteq> col (New ''f'' greek) + 1
   \<and> fst (snd (fst (Scan Letters (New ''f'' greek)))) = IDENT
   \<and> Column (fst (fst (Scan Letters (New ''f'' greek)))) = 1
   \<and> Column (fst (fst (Scan Letters (after Letters 1 (New ''f'' greek))))) \<noteq> 5"
  by (simp add: eval_defs greek_def Letters_def)

text \<open>
  Claim C1, amended. The column counts bytes, not runes. Over any number \<open>k\<close> of calls
  of \<open>next\<close> that stay on one line, the column advances by exactly as much as the byte
  offset; two successive tokens on one line differ in column by the distance in bytes
  between their first bytes; a token on the first line of a scanner made by \<open>New\<close> has
  as column the offset of its first byte plus one. In a state the scanner reaches, a
  byte below \<open>0x80\<close> under the cursor has width one and moves the column by one (to
  zero when it is a line feed), and no rune is wider than four. For a table that has the
  letter pi (\<open>U+03C0\<close>), scanning the four Greek letters gives one \<open>IDENT\<close> with the
  eight bytes as literal at column 1, and the next call of \<open>Scan\<close> returns its token at
  column 9.
\<close>

theorem C1_column_counts_bytes:
  assumes "T 0x3C0"
  shows "(line ((next' ^^ k) s) = line s \<longrightarrow>
            col ((next' ^^ k) s) + pos s = col s + pos ((next' ^^ k) s))
    \<and> (Line (fst (fst (Scan T (snd (Scan T s))))) = Line (fst (fst (Scan T s))) \<longrightarrow>
          Column (fst (fst (Scan T (snd (Scan T s))))) + pos (skipSpace s)
            = Column (fst (fst (Scan T s))) + pos (skipSpace (snd (Scan T s))))
    \<and> (Line (fst (fst (Scan T (after T n (New f b))))) = 1 \<longrightarrow>
          Column (fst (fst (Scan T (after T n (New f b)))))
            = pos (skipSpace (after T n (New f b))) + 1)
    \<and> (ok s \<and> pos s < length (src s) \<and> (of_char (src s ! pos s) :: int) < RuneSelf \<longrightarrow>
          w s = 1 \<and> pos (next' s) = pos s + 1
          \<and> col (next' s) = (if src s ! pos s = CHR 0x0A then 0 else col s + 1))
    \<and> w (next' s) \<le> 4
    \<and> fst (Scan T (New f greek)) = (\<lparr>pfile = f, pline = 0, pcolumn = 0\<rparr>, IDENT, greek)
    \<and> Column (fst (fst (Scan T (New f greek)))) = 1
    \<and> Column (fst (fst (Scan T (after T 1 (New f greek))))) = 9"
proof (intro conjI)
  show "line ((next' ^^ k) s) = line s \<longrightarrow>
            col ((next' ^^ k) s) + pos s = col s + pos ((next' ^^ k) s)"
    using reach_bytecol [OF funpow_reach, of s k] by (simp add: bytecol_def)
  show "Line (fst (fst (Scan T (snd (Scan T s))))) = Line (fst (fst (Scan T s))) \<longrightarrow>
          Column (fst (fst (Scan T (snd (Scan T s))))) + pos (skipSpace s)
            = Column (fst (fst (Scan T s))) + pos (skipSpace (snd (Scan T s)))"
    using Scan_starts_bytecol [of s T]
    by (simp add: Scan_position Line_def Column_def bytecol_def skipSpace_def)
  show "Line (fst (fst (Scan T (after T n (New f b))))) = 1 \<longrightarrow>
          Column (fst (fst (Scan T (after T n (New f b)))))
            = pos (skipSpace (after T n (New f b))) + 1"
  proof
    let ?t = "skipSpace_loop (after T n (New f b))"
    assume "Line (fst (fst (Scan T (after T n (New f b))))) = 1"
    then have l: "line ?t = 0" by (simp add: Scan_position Line_def)
    have "bytecol (New f b) ?t"
      using after_bytecol skipSpace_loop_bytecol by (rule bytecol_trans)
    with l have "col ?t = pos ?t" by (rule New_bytecol)
    then show "Column (fst (fst (Scan T (after T n (New f b)))))
            = pos (skipSpace (after T n (New f b))) + 1"
      by (simp add: Scan_position Column_def skipSpace_def)
  qed
  show "ok s \<and> pos s < length (src s) \<and> (of_char (src s ! pos s) :: int) < RuneSelf \<longrightarrow>
          w s = 1 \<and> pos (next' s) = pos s + 1
          \<and> col (next' s) = (if src s ! pos s = CHR 0x0A then 0 else col s + 1)"
  proof
    assume a: "ok s \<and> pos s < length (src s) \<and> (of_char (src s ! pos s) :: int) < RuneSelf"
    then have c: "current s = of_char (src s ! pos s)" and w: "w s = 1"
      using ok_ascii [of s] by simp_all
    have "(current s = 10) = (src s ! pos s = CHR 0x0A)"
      unfolding c by (rule of_char_is_LF)
    with w show "w s = 1 \<and> pos (next' s) = pos s + 1
          \<and> col (next' s) = (if src s ! pos s = CHR 0x0A then 0 else col s + 1)"
      by (simp add: next_line_col)
  qed
  show "w (next' s) \<le> 4" by (rule next_w_le)
  show "fst (Scan T (New f greek)) = (\<lparr>pfile = f, pline = 0, pcolumn = 0\<rparr>, IDENT, greek)"
    using assms by (simp add: eval_defs greek_def)
  show "Column (fst (fst (Scan T (New f greek)))) = 1"
    using assms by (simp add: eval_defs greek_def)
  show "Column (fst (fst (Scan T (after T 1 (New f greek))))) = 9"
    using assms by (simp add: eval_defs greek_def)
qed

theorem C1_column_counts_bytes_witness:
  "Letters 0x3C0
   \<and> line ((next' ^^ 1) (New ''f'' ''a b'')) = line (New ''f'' ''a b'')
   \<and> col ((next' ^^ 1) (New ''f'' ''a b'')) + pos (New ''f'' ''a b'')
       = col (New ''f'' ''a b'') + pos ((next' ^^ 1) (New ''f'' ''a b''))
   \<and> Line (fst (fst (Scan Letters (snd (Scan Letters (New ''f'' ''a b''))))))
       = Line (fst (fst (Scan Letters (New ''f'' ''a b''))))
   \<and> Column (fst (fst (Scan Letters (snd (Scan Letters (New ''f'' ''a b''))))))
         + pos (skipSpace (New ''f'' ''a b''))
       = Column (fst (fst (Scan Letters (New ''f'' ''a b''))))
         + pos (skipSpace (snd (Scan Letters (New ''f'' ''a b''))))
   \<and> Line (fst (fst (Scan Letters (after Letters 1 (New ''f'' ''a b''))))) = 1
   \<and> Column (fst (fst (Scan Letters (after Letters 1 (New ''f'' ''a b'')))))
       = pos (skipSpace (after Letters 1 (New ''f'' ''a b''))) + 1
   \<and> Column (fst (fst (Scan Letters (after Letters 1 (New ''f'' ''a b''))))) = 3
   \<and> ok (New ''f'' ''a b'')
   \<and> pos (New ''f'' ''a b'') < length (src (New ''f'' ''a b''))
   \<and> (of_char (src (New ''f'' ''a b'') ! pos (New ''f'' ''a b'')) :: int) < RuneSelf
   \<and> w (New ''f'' ''a b'') = 1
   \<and> col (next' (New ''f'' ''a b'')) = col (New ''f'' ''a b'') + 1
   \<and> Column (fst (fst (Scan Letters (after Letters 1 (New ''f'' greek))))) = 9"
proof -
  let ?s = "New ''f'' ''a b''"
  have h0: "Letters 0x3C0" by (simp add: Letters_def)
  have h1: "line ((next' ^^ 1) ?s) = line ?s" by (simp add: eval_defs)
  have h2: "Line (fst (fst (Scan Letters (snd (Scan Letters ?s)))))
       = Line (fst (fst (Scan Letters ?s)))" by (simp add: eval_defs)
  have h3: "Line (fst (fst (Scan Letters (after Letters 1 ?s)))) = 1" by (simp add: eval_defs)
  have h4: "ok ?s" by (rule ok_New)
  have h5: "pos ?s < length (src ?s)" by (simp add: eval_defs)
  have h6: "(of_char (src ?s ! pos ?s) :: int) < RuneSelf" by (simp add: eval_defs)
  have h7: "src ?s ! pos ?s \<noteq> CHR 0x0A" by (simp add: eval_defs)
  have h8: "Column (fst (fst (Scan Letters (after Letters 1 ?s)))) = 3" by (simp add: eval_defs)
  note t = C1_column_counts_bytes [where T = Letters and k = 1 and s = ?s and n = 1
      and f = "''f''" and b = "''a b''", OF h0]
  from t h1 h2 h3 h4 h5 h6 h7 h8 h0 show ?thesis by simp
qed

text \<open>
  Claim C2, as stated, fails: after the \<open>ILLEGAL\<close> token of the unterminated comment
  \<open>/* unterminated\<close> the next call of \<open>Scan\<close> returns a token, namely \<open>EOF\<close>.
\<close>

theorem C2_unterminated_comment_then_eof_counterexample:
  "fst (snd (fst (Scan Letters (New ''f'' ''/* unterminated'')))) = ILLEGAL
   \<and> fst (snd (fst (Scan Letters (after Letters 1 (New ''f'' ''/* unterminated''))))) = EOF"
  by (simp add: eval_defs)

text \<open>
  Claim C2, amended. Let the scanner be in a state it reaches, on a buffer whose next
  token (after white space) starts with \<open>/*\<close>, followed to the end of the buffer by
  ASCII bytes \<open>body\<close> in which no \<open>*\<close> is immediately followed by \<open>/\<close> (so \<open>/**\<close> and an
  API comment are included, \<open>/**/\<close> is not). Then \<open>Scan\<close> returns one \<open>ILLEGAL\<close> token
  at the position of the \<open>/\<close>, its literal the whole rest of the buffer, and every later
  call returns \<open>EOF\<close> with the empty literal.
\<close>

theorem C2_unterminated_comment_then_eof:
  assumes "ok s" and "src s = pre @ ''/*'' @ body" and "pos (skipSpace s) = length pre"
    and "\<forall>c\<in>set body. (of_char c :: int) < RuneSelf" and "\<not> closed_in body"
  shows "fst (Scan T s) =
           (\<lparr>pfile = filename s, pline = tokLine (skipSpace s), pcolumn = tokCol (skipSpace s)\<rparr>,
            ILLEGAL, ''/*'' @ body)
         \<and> snd (fst (Scan T (after T (Suc n) s))) = (EOF, '''')"
proof -
  let ?t = "skipSpace s"
  note t = at_token_start [OF assms(1,2,3)]
  from comment_unclosed [OF t(1,2,3) assms(4,5)] obtain u where
    u: "comment ?t = ((ILLEGAL, ''/*'' @ body), u)" "current u = eof" by blast
  have "remaining ?t = CHR ''/'' # (CHR ''*'' # body)" using t(3) by simp
  from remaining_Cons(1) [OF t(1) this] have c: "current ?t = of_char CHR ''/''" by simp
  have sc: "Scan T s =
      ((\<lparr>pfile = filename s, pline = tokLine ?t, pcolumn = tokCol ?t\<rparr>, ILLEGAL, ''/*'' @ body), u)"
    unfolding Scan_on_slash [OF c] u t(4) by simp
  have l: "current (skipSpace_loop u) = eof" using u(2) by (simp add: skipSpace_loop_eof)
  have "Scan T (after T (Suc n) s) = Scan T (after T n u)" using sc by simp
  also have "\<dots> = Scan T u" using l by (rule Scan_stays_at_eof)
  finally have "snd (fst (Scan T (after T (Suc n) s))) = (EOF, '''')"
    by (simp add: Scan_at_eof [OF l])
  with sc show ?thesis by simp
qed

theorem C2_unterminated_comment_then_eof_witness:
  "fst (Scan Letters (New ''f'' ''/* x'')) =
     (\<lparr>pfile = ''f'', pline = 0, pcolumn = 0\<rparr>, ILLEGAL, ''/* x'')
   \<and> snd (fst (Scan Letters (after Letters (Suc 2) (New ''f'' ''/* x'')))) = (EOF, '''')"
proof -
  have a: "ok (New ''f'' ''/* x'')" by (rule ok_New)
  have b: "src (New ''f'' ''/* x'') = [] @ ''/*'' @ '' x''" by (simp add: New_def)
  have c: "pos (skipSpace (New ''f'' ''/* x'')) = length ([] :: string)" by (simp add: eval_defs)
  have d: "\<forall>c\<in>set '' x''. (of_char c :: int) < RuneSelf" by simp
  have e: "\<not> closed_in '' x''" by simp
  have f: "filename (New ''f'' ''/* x'') = ''f''" by (simp add: New_def)
  have g: "tokLine (skipSpace (New ''f'' ''/* x'')) = 0" "tokCol (skipSpace (New ''f'' ''/* x'')) = 0"
    by (simp_all add: eval_defs)
  show ?thesis
    using C2_unterminated_comment_then_eof [OF a b c d e, of Letters 2] f g by simp
qed

text \<open>
  Claim C3, evaluated on the input \<open>/**/\<close>: the scanner returns one \<open>COMMENT\<close> with the
  literal \<open>/**/\<close> and then \<open>EOF\<close>, whatever the table of letters; but \<open>IsAPI\<close> of a
  comment with that literal is true, since the literal has the prefix \<open>/**\<close>.
\<close>

theorem C3_degenerate_comment_is_API:
  "fst (Scan T (New f ''/**/'')) = (\<lparr>pfile = f, pline = 0, pcolumn = 0\<rparr>, COMMENT, ''/**/'')
   \<and> fst (snd (fst (Scan T (after T 1 (New f ''/**/''))))) = EOF
   \<and> IsAPI \<lparr>cstart = p, cend = q, lit = ''/**/''\<rparr>"
  by (simp add: eval_defs IsAPI_def HasPrefix_def)

text \<open>
  Claim C4, evaluated on the four bytes \<open>.\<close>, \<open>0xC3\<close>, \<open>0xA9\<close>, \<open>.\<close>: the first dot
  is followed by the two bytes of the letter e with acute accent (\<open>U+00E9\<close>, as
  \<open>DecodeRune\<close> reads them), not by a second dot. Yet \<open>next\<close> decodes the last rune of
  the rest of the buffer, which is the final dot, with width one: the scanner returns
  \<open>RANGE\<close> twice and then \<open>EOF\<close>, and no \<open>ILLEGAL\<close>, whatever the table of letters. On
  the input \<open>1.2\<close>, all ASCII, it returns \<open>NUMBER "1"\<close>, \<open>ILLEGAL "."\<close>, \<open>NUMBER "2"\<close>
  and \<open>EOF\<close>.
\<close>

theorem C4_dot_before_non_ascii_is_range:
  "scans T 3 (New f [CHR ''.'', CHR 0xC3, CHR 0xA9, CHR ''.'']) =
     [(\<lparr>pfile = f, pline = 0, pcolumn = 0\<rparr>, RANGE, ''..''),
      (\<lparr>pfile = f, pline = 0, pcolumn = 2\<rparr>, RANGE, ''..''),
      (\<lparr>pfile = f, pline = 0, pcolumn = 4\<rparr>, EOF, '''')]
   \<and> current (next' (New f [CHR ''.'', CHR 0xC3, CHR 0xA9, CHR ''.''])) = of_char CHR ''.''
   \<and> w (next' (New f [CHR ''.'', CHR 0xC3, CHR 0xA9, CHR ''.''])) = 1
   \<and> DecodeRune [CHR 0xC3, CHR 0xA9] = (0xE9, 2)
   \<and> DecodeLastRune [CHR 0xC3, CHR 0xA9, CHR ''.''] = (of_char CHR ''.'', 1)
   \<and> scans T 4 (New f ''1.2'') =
       [(\<lparr>pfile = f, pline = 0, pcolumn = 0\<rparr>, NUMBER, ''1''),
        (\<lparr>pfile = f, pline = 0, pcolumn = 1\<rparr>, ILLEGAL, ''.''),
        (\<lparr>pfile = f, pline = 0, pcolumn = 2\<rparr>, NUMBER, ''2''),
        (\<lparr>pfile = f, pline = 0, pcolumn = 3\<rparr>, EOF, '''')]"
proof (intro conjI)
  show "DecodeRune [CHR 0xC3, CHR 0xA9] = (0xE9, 2)" by code_simp
  show "DecodeLastRune [CHR 0xC3, CHR 0xA9, CHR ''.''] = (of_char CHR ''.'', 1)" by code_simp
qed (simp_all add: eval_defs scans_numeral)

text \<open>
  Claim C5, as stated, fails: on \<open>//a\<close>, line feed, \<open>b\<close> the literal of the comment is
  \<open>//a\<close> with the line feed, not \<open>//a\<close>, and the scanner is left after the line feed
  (offset 4), not on it.
\<close>

theorem C5_line_comment_includes_eol_counterexample:
  "snd (fst (Scan Letters (New ''f'' [CHR ''/'', CHR ''/'', CHR ''a'', CHR 0x0A, CHR ''b''])))
     = (COMMENT, [CHR ''/'', CHR ''/'', CHR ''a'', CHR 0x0A])
   \<and> snd (snd (fst (Scan Letters (New ''f'' [CHR ''/'', CHR ''/'', CHR ''a'', CHR 0x0A, CHR ''b''])))) \<noteq> ''//a''
   \<and> pos (snd (Scan Letters (New ''f'' [CHR ''/'', CHR ''/'', CHR ''a'', CHR 0x0A, CHR ''b'']))) = 4"
  by code_simp

text \<open>
  Claim C5, amended. Let the scanner be in a state it reaches, on a buffer whose next
  token (after white space) starts with \<open>//\<close>, followed by ASCII bytes \<open>body\<close> without
  carriage return or line feed and then by a byte \<open>e\<close> that is one of the two. Then
  \<open>Scan\<close> returns \<open>COMMENT\<close> at the position of the first \<open>/\<close>, its literal is
  \<open>//\<close>, \<open>body\<close> and \<open>e\<close> (the terminating byte included), and the scanner is left on
  the first byte after \<open>e\<close>, the token start moved there.
\<close>

theorem C5_line_comment_includes_eol:
  assumes "ok s" and "src s = pre @ ''//'' @ body @ e # rst"
    and "pos (skipSpace s) = length pre"
    and "\<forall>c\<in>set body. (of_char c :: int) < RuneSelf \<and> c \<noteq> CHR 0x0A \<and> c \<noteq> CHR 0x0D"
    and "e = CHR 0x0A \<or> e = CHR 0x0D"
  shows "fst (Scan T s) =
           (\<lparr>pfile = filename s, pline = tokLine (skipSpace s), pcolumn = tokCol (skipSpace s)\<rparr>,
            COMMENT, ''//'' @ body @ [e])
         \<and> pos (snd (Scan T s)) = length pre + 2 + length body + 1
         \<and> start (snd (Scan T s)) = pos (snd (Scan T s))
         \<and> drop (pos (snd (Scan T s))) (src s) = rst"
proof -
  let ?t = "skipSpace s"
  note t = at_token_start [OF assms(1,2,3)]
  note cl = comment_line [OF t(1,2,3) assms(4,5)]
  have "remaining ?t = CHR ''/'' # (CHR ''/'' # body @ e # rst)" using t(3) by simp
  from remaining_Cons(1) [OF t(1) this] have c: "current ?t = of_char CHR ''/''" by simp
  have sr: "src (snd (comment ?t)) = src s"
    using fin_frame [OF comment_fin, of ?t] skipSpace_facts(3) [OF assms(1)] by simp
  have f: "fst (Scan T s) =
      (\<lparr>pfile = filename s, pline = tokLine ?t, pcolumn = tokCol ?t\<rparr>, fst (comment ?t))"
    and g: "snd (Scan T s) = snd (comment ?t)"
    unfolding Scan_on_slash [OF c] t(4) by simp_all
  from cl have c1: "fst (comment ?t) = (COMMENT, ''//'' @ body @ [e])"
    and c2: "pos (snd (comment ?t)) = pos ?t + 2 + length body + 1"
    and c3: "start (snd (comment ?t)) = pos (snd (comment ?t))"
    and c4: "remaining (snd (comment ?t)) = rst"
    by blast+
  have "fst (Scan T s) =
      (\<lparr>pfile = filename s, pline = tokLine ?t, pcolumn = tokCol ?t\<rparr>, COMMENT, ''//'' @ body @ [e])"
    unfolding f c1 by (rule refl)
  moreover have "pos (snd (Scan T s)) = length pre + 2 + length body + 1"
    unfolding g c2 assms(3) by (rule refl)
  moreover have "start (snd (Scan T s)) = pos (snd (Scan T s))"
    unfolding g by (rule c3)
  moreover have "drop (pos (snd (Scan T s))) (src s) = rst"
    using c4 unfolding g remaining_def sr by simp
  ultimately show ?thesis by blast
qed

theorem C5_line_comment_includes_eol_witness:
  "fst (Scan Letters (New ''f'' [CHR ''/'', CHR ''/'', CHR ''a'', CHR 0x0A, CHR ''b''])) =
     (\<lparr>pfile = ''f'', pline = 0, pcolumn = 0\<rparr>, COMMENT, [CHR ''/'', CHR ''/'', CHR ''a'', CHR 0x0A])
   \<and> pos (snd (Scan Letters (New ''f'' [CHR ''/'', CHR ''/'', CHR ''a'', CHR 0x0A, CHR ''b'']))) = 4"
proof -
  let ?b = "[CHR ''/'', CHR ''/'', CHR ''a'', CHR 0x0A, CHR ''b'']"
  have a: "ok (New ''f'' ?b)" by (rule ok_New)
  have b: "src (New ''f'' ?b) = [] @ ''//'' @ ''a'' @ CHR 0x0A # ''b''" by (simp add: New_def)
  have c: "pos (skipSpace (New ''f'' ?b)) = length ([] :: string)" by (simp add: eval_defs)
  have d: "\<forall>c\<in>set ''a''. (of_char c :: int) < RuneSelf \<and> c \<noteq> CHR 0x0A \<and> c \<noteq> CHR 0x0D" by simp
  have e: "CHR 0x0A = CHR 0x0A \<or> CHR 0x0A = CHR 0x0D" by simp
  have f: "filename (New ''f'' ?b) = ''f''" by (simp add: New_def)
  have g: "tokLine (skipSpace (New ''f'' ?b)) = 0" "tokCol (skipSpace (New ''f'' ?b)) = 0"
    by (simp_all add: eval_defs)
  show ?thesis
    using C5_line_comment_includes_eol [OF a b c d e, of Letters] f g by simp
qed

text \<open>
  Claim C6, evaluated on the two bytes \<open>0xFF\<close>, \<open>;\<close>: the byte \<open>0xFF\<close> is no valid
  UTF-8, yet \<open>next\<close> decodes the last rune of the rest of the buffer, so the current rune
  is \<open>;\<close> and not \<open>RuneError\<close>, no error is collected, and the scanner returns two
  \<open>SEMICOL\<close> tokens (the first with the literal \<open>0xFF\<close>) and \<open>EOF\<close>.
\<close>

theorem C6_invalid_byte_not_recorded:
  "current (New f [CHR 0xFF, CHR '';'']) = of_char CHR '';''
   \<and> errs (New f [CHR 0xFF, CHR '';'']) = []
   \<and> scans T 3 (New f [CHR 0xFF, CHR '';'']) =
       [(\<lparr>pfile = f, pline = 0, pcolumn = 0\<rparr>, SEMICOL, [CHR 0xFF]),
        (\<lparr>pfile = f, pline = 0, pcolumn = 1\<rparr>, SEMICOL, '';''),
        (\<lparr>pfile = f, pline = 0, pcolumn = 2\<rparr>, EOF, '''')]
   \<and> errs (after T 3 (New f [CHR 0xFF, CHR '';''])) = []"
  by (simp add: eval_defs numeral_nat)

text \<open>
  Claim C7. Once a call of \<open>Scan\<close> has returned the token \<open>EOF\<close>, every later call on
  the same scanner returns \<open>EOF\<close> again: the call after any number \<open>n\<close> of further
  calls returns exactly what the first one returned (token, position, empty literal, and
  the scanner it leaves).
\<close>

theorem C7_eof_is_idempotent:
  assumes "fst (snd (fst (Scan T s))) = EOF"
  shows "fst (snd (fst (Scan T (after T n s)))) = EOF \<and> Scan T (after T n s) = Scan T s"
proof -
  from assms have "current (skipSpace_loop s) = eof" by (simp add: Scan_EOF)
  then have "Scan T (after T n s) = Scan T s" by (rule Scan_stays_at_eof)
  with assms show ?thesis by simp
qed

theorem C7_eof_is_idempotent_witness:
  "fst (snd (fst (Scan Letters (New ''f'' '' '')))) = EOF
   \<and> fst (snd (fst (Scan Letters (after Letters 3 (New ''f'' '' ''))))) = EOF
   \<and> Scan Letters (after Letters 3 (New ''f'' '' '')) = Scan Letters (New ''f'' '' '')"
proof -
  have a: "fst (snd (fst (Scan Letters (New ''f'' '' '')))) = EOF"
    by (simp add: eval_defs)
  show ?thesis
    using C7_eof_is_idempotent [OF a, of 3] a by simp
qed

text \<open>
  Claim C8. For two successive calls of \<open>Scan\<close> on the same scanner, in any state, the
  position of the later token is not before the position of the earlier one in the
  lexicographic order on (line, column).
\<close>

theorem C8_positions_never_decrease:
  "Line (fst (fst (Scan T s))) < Line (fst (fst (Scan T (snd (Scan T s)))))
   \<or> (Line (fst (fst (Scan T s))) = Line (fst (fst (Scan T (snd (Scan T s)))))
      \<and> Column (fst (fst (Scan T s))) \<le> Column (fst (fst (Scan T (snd (Scan T s))))))"
  using Scan_positions_mono [of s T]
  by (simp add: Scan_position Line_def Column_def lc_le_def)

text \<open>
  Claim C9. The results of any number of calls of \<open>Scan\<close> are a function of the file
  name, the buffer and the cursor alone: two scanners that agree on these return the same
  sequence of (position, token, literal), whatever token start and collected errors each
  holds. Two scanners made by \<open>New\<close> over the same file name and buffer are such a pair.
\<close>

theorem C9_scanning_is_deterministic:
  assumes "filename s1 = filename s2" and "src s1 = src s2" and "current s1 = current s2"
    and "w s1 = w s2" and "pos s1 = pos s2" and "line s1 = line s2" and "col s1 = col s2"
  shows "scans T n s1 = scans T n s2"
proof -
  have "cur s1 = cur s2" by (rule cur_eqI) (simp_all add: assms)
  then show ?thesis
  proof (induction n arbitrary: s1 s2)
    case 0
    show ?case by simp
  next
    case (Suc n)
    from Scan_cong [OF Suc(2), of T] have
      a: "fst (Scan T s1) = fst (Scan T s2)" and b: "cur (snd (Scan T s1)) = cur (snd (Scan T s2))"
      by simp_all
    from Suc(1) [OF b] a show ?case by (simp add: case_prod_unfold)
  qed
qed

theorem C9_scanning_is_deterministic_witness:
  "scans Letters 5 (New ''f'' ''a[1..2]'') =
     scans Letters 5 ((New ''f'' ''a[1..2]'')\<lparr>start := 3, tokLine := 7, tokCol := 9,
        errs := [Error \<lparr>pfile = ''g'', pline = 1, pcolumn = 1\<rparr>]\<rparr>)"
  by (rule C9_scanning_is_deterministic) simp_all

text \<open>
  Claim C10. In every state the scanner reaches (\<open>ok\<close>; the state \<open>New\<close> returns is one,
  and \<open>next\<close> and \<open>Scan\<close> keep it, whatever the bytes of the buffer): when the
  current rune is not \<open>eof\<close>, \<open>next\<close> advances the byte offset by at least one, never past
  the end of the buffer; hence each of the five rune loops (white space, digits,
  identifier, line comment, search for \<open>*\<close>) returns after at most as many calls of
  \<open>next\<close> as there are bytes left, and so does the outer loop of the block comment; and
  each rune loop returns on a rune that ends it: a token boundary or \<open>eof\<close>.
\<close>

theorem C10_scan_terminates:
  assumes "ok s"
  shows "(current s \<noteq> eof \<longrightarrow> pos s + 1 \<le> pos (next' s))
    \<and> pos (next' s) \<le> length (src s)
    \<and> ok (next' s) \<and> ok (snd (Scan T s)) \<and> ok (after T k (New f b))
    \<and> (\<exists>n. n \<le> length (src s) - pos s \<and> skipSpace_loop s = (next' ^^ n) s)
    \<and> (\<exists>n. n \<le> length (src s) - pos s \<and> digits_loop s = (next' ^^ n) s)
    \<and> (\<exists>n. n \<le> length (src s) - pos s \<and> ident_loop T s = (next' ^^ n) s)
    \<and> (\<exists>n. n \<le> length (src s) - pos s \<and> eol_loop s = (next' ^^ n) s)
    \<and> (\<exists>n. n \<le> length (src s) - pos s \<and> star_loop s = (next' ^^ n) s)
    \<and> (\<exists>n. n \<le> length (src s) - pos s \<and>
          (snd (block_loop s) = (next' ^^ n) s \<or> snd (block_loop s) = moveToken ((next' ^^ n) s)))
    \<and> current (skipSpace_loop s) \<notin>
          {of_char CHR '' '', of_char CHR 0x09, of_char CHR 0x0D, of_char CHR 0x0A}
    \<and> \<not> isDigit (current (digits_loop s))
    \<and> \<not> isAlphanumeric T (current (ident_loop T s))
    \<and> current (eol_loop s) \<in> {eof, of_char CHR 0x0A, of_char CHR 0x0D}
    \<and> current (star_loop s) \<in> {of_char CHR ''*'', eof}"
proof (intro conjI)
  show "current s \<noteq> eof \<longrightarrow> pos s + 1 \<le> pos (next' s)"
    using ok_progress [OF assms] by (auto simp del: next_frame)
  show "pos (next' s) \<le> length (src s)"
    using ok_bounds [OF ok_next [OF assms]] by simp
  show "ok (next' s)" using assms by (rule ok_next)
  show "ok (snd (Scan T s))" using assms by (rule ok_Scan)
  show "ok (after T k (New f b))" using ok_New by (rule ok_after)
  show "\<exists>n. n \<le> length (src s) - pos s \<and> skipSpace_loop s = (next' ^^ n) s"
    unfolding skipSpace_loop_upto using assms by (rule upto_bounded)
  show "\<exists>n. n \<le> length (src s) - pos s \<and> digits_loop s = (next' ^^ n) s"
    unfolding digits_loop_upto using assms by (rule upto_bounded)
  show "\<exists>n. n \<le> length (src s) - pos s \<and> ident_loop T s = (next' ^^ n) s"
    unfolding ident_loop_upto using assms by (rule upto_bounded)
  show "\<exists>n. n \<le> length (src s) - pos s \<and> eol_loop s = (next' ^^ n) s"
    unfolding eol_loop_upto using assms by (rule upto_bounded)
  show "\<exists>n. n \<le> length (src s) - pos s \<and> star_loop s = (next' ^^ n) s"
    unfolding star_loop_upto using assms by (rule upto_bounded)
  show "\<exists>n. n \<le> length (src s) - pos s \<and>
          (snd (block_loop s) = (next' ^^ n) s \<or> snd (block_loop s) = moveToken ((next' ^^ n) s))"
    using assms by (rule block_loop_bounded)
  show "current (skipSpace_loop s) \<notin>
          {of_char CHR '' '', of_char CHR 0x09, of_char CHR 0x0D, of_char CHR 0x0A}"
    unfolding skipSpace_loop_upto
    using upto_exit [of "\<lambda>c. c = of_char CHR '' '' \<or> c = of_char CHR 0x09
         \<or> c = of_char CHR 0x0D \<or> c = of_char CHR 0x0A" s] by auto
  show "\<not> isDigit (current (digits_loop s))"
    unfolding digits_loop_upto using upto_exit [of isDigit s] isDigit_not_eof by blast
  show "\<not> isAlphanumeric T (current (ident_loop T s))"
    unfolding ident_loop_upto
    using upto_exit [of "isAlphanumeric T" s] isAlphanumeric_not_eof by blast
  show "current (eol_loop s) \<in> {eof, of_char CHR 0x0A, of_char CHR 0x0D}"
    unfolding eol_loop_upto
    using upto_exit [of "\<lambda>c. c \<noteq> of_char CHR 0x0A \<and> c \<noteq> of_char CHR 0x0D" s] by auto
  show "current (star_loop s) \<in> {of_char CHR ''*'', eof}"
    unfolding star_loop_upto
    using upto_exit [of "\<lambda>c. c \<noteq> of_char CHR ''*''" s] by auto
qed

theorem C10_scan_terminates_witness:
  "ok (New ''f'' ''12 '')
   \<and> pos (New ''f'' ''12 '') + 1 \<le> pos (next' (New ''f'' ''12 ''))
   \<and> ok (snd (Scan Letters (New ''f'' ''12 '')))
   \<and> (\<exists>n. n \<le> length (src (New ''f'' ''12 '')) - pos (New ''f'' ''12 '')
          \<and> digits_loop (New ''f'' ''12 '') = (next' ^^ n) (New ''f'' ''12 ''))"
proof -
  have a: "ok (New ''f'' ''12 '')" by (rule ok_New)
  have b: "current (New ''f'' ''12 '') \<noteq> eof" by (simp add: eval_defs)
  show ?thesis
    using C10_scan_terminates [OF a, of Letters 0 "''f''" "''12 ''"] a b by blast
qed

end
